theory Spec2Isabelle
  imports Main
begin

section \<open>JavaScript strings\<close>

text \<open>
  A JavaScript string is a sequence of UTF-16 code units. The slide titles contain the
  em dash U+2014, which is one code unit but no 8-bit character, so strings are lists of
  code units and \<open>lit\<close> turns an ASCII literal into one.
\<close>

type_synonym jsstring = "nat list"

definition lit :: "string \<Rightarrow> jsstring" where
  "lit s = map of_char s"

definition em_dash :: nat where
  "em_dash = 8212"

text \<open>
  The decimal digits of a natural number, and \<^verbatim>\<open>String(x)\<close> for an integer \<open>x\<close>:
  the digits, after a minus sign when \<open>x\<close> is negative.
\<close>

function digits :: "nat \<Rightarrow> jsstring" where
  "digits n = (if n < 10 then [48 + n] else digits (n div 10) @ [48 + n mod 10])"
  by pat_completeness auto
termination
  by (relation "measure id") auto

declare digits.simps [simp del]

definition String :: "int \<Rightarrow> jsstring" where
  "String x = (if x < 0 then lit ''-'' @ digits (nat (- x)) else digits (nat x))"

text \<open>
  \<^verbatim>\<open>s.padStart(n, pad)\<close>: a string already \<open>n\<close> units long, or an empty \<open>pad\<close>, gives
  \<open>s\<close> back; otherwise \<open>pad\<close> is repeated and cut to the missing length and put in front.
\<close>

definition padStart :: "nat \<Rightarrow> jsstring \<Rightarrow> jsstring \<Rightarrow> jsstring" where
  "padStart n pad s =
     (if n \<le> length s \<or> pad = [] then s
      else take (n - length s) (concat (replicate (n - length s) pad)) @ s)"

text \<open>
  The remainder operator \<^verbatim>\<open>a % b\<close> truncates towards zero: the result has the sign
  of \<open>a\<close>. \<^verbatim>\<open>Math.floor(a / b)\<close> on integers with \<open>b > 0\<close> is \<open>a div b\<close>.
\<close>

definition rem :: "int \<Rightarrow> int \<Rightarrow> int" where
  "rem a b = (if 0 \<le> a then a mod \<bar>b\<bar> else - ((- a) mod \<bar>b\<bar>))"

text \<open>\<^verbatim>\<open>s.startsWith(p)\<close> and \<^verbatim>\<open>s.includes(p)\<close>.\<close>

definition startsWith :: "jsstring \<Rightarrow> jsstring \<Rightarrow> bool" where
  "startsWith s p = (take (length p) s = p)"

fun includes_str :: "jsstring \<Rightarrow> jsstring \<Rightarrow> bool" where
  "includes_str [] p = (p = [])"
| "includes_str (c # cs) p = (startsWith (c # cs) p \<or> includes_str cs p)"

text \<open>
  \<^verbatim>\<open>s.split(sep)\<close> with a string separator: the pieces between the occurrences of
  \<open>sep\<close>, found from the left without overlap. An empty separator splits into single
  code units. \<open>split_from sep cur s\<close> scans \<open>s\<close> with \<open>cur\<close> the piece collected so far.
\<close>

fun split_from :: "jsstring \<Rightarrow> jsstring \<Rightarrow> jsstring \<Rightarrow> jsstring list" where
  "split_from sep cur [] = [cur]"
| "split_from sep cur (c # cs) =
     (if startsWith (c # cs) sep then cur # split_from sep [] (drop (length sep - 1) cs)
      else split_from sep (cur @ [c]) cs)"

definition split_str :: "jsstring \<Rightarrow> jsstring \<Rightarrow> jsstring list" where
  "split_str s sep = (if sep = [] then map (\<lambda>c. [c]) s else split_from sep [] s)"

text \<open>Array indexing \<^verbatim>\<open>xs[i]\<close>: \<open>undefined\<close> (here \<open>None\<close>) out of range.\<close>

definition at_index :: "'a list \<Rightarrow> nat \<Rightarrow> 'a option" where
  "at_index xs i = (if i < length xs then Some (xs ! i) else None)"

text \<open>
  \<^verbatim>\<open>s.replace(/p.*/, "")\<close> for a literal \<open>p\<close>: the regular expression matches at the
  leftmost occurrence of \<open>p\<close> and the greedy \<^verbatim>\<open>.*\<close> runs up to the next line
  terminator (\<^verbatim>\<open>.\<close> matches any code unit but LF, CR, U+2028 and U+2029) or the end
  of the string. Without the \<open>g\<close> flag only this first match is replaced, by the empty
  string.
\<close>

definition line_terminator :: "nat \<Rightarrow> bool" where
  "line_terminator c = (c = 10 \<or> c = 13 \<or> c = 8232 \<or> c = 8233)"

fun replace_to_eol :: "jsstring \<Rightarrow> jsstring \<Rightarrow> jsstring" where
  "replace_to_eol p [] = []"
| "replace_to_eol p (c # cs) =
     (if startsWith (c # cs) p
      then dropWhile (\<lambda>x. \<not> line_terminator x) (drop (length p) (c # cs))
      else c # replace_to_eol p cs)"

section \<open>The slide array\<close>

text \<open>
  \<^verbatim>\<open>type Slide = { key: string; title: string; type?: "section" | "content";
  icon?: any; content: React.ReactNode };\<close>
  The icon and the rendered content are opaque views and are left out; \<open>key\<close>, \<open>title\<close>
  and the optional \<open>type\<close> are kept, in the order of the source array. In every title the
  em dash stands between two spaces.
\<close>

datatype slide_type = Section | Content

record slide =
  key :: jsstring
  title :: jsstring
  type :: "slide_type option"

definition slides :: "slide list" where
  "slides = [
    \<lparr>key = lit ''sec-1'',
     title = lit ''Section 1 '' @ [em_dash] @ lit '' Foundations (FMM, Principles, Objectives)'',
     type = Some Section\<rparr>,
    \<lparr>key = lit ''s1-1'',
     title = lit ''Slide 1 '' @ [em_dash] @ lit '' Title & Session Map'',
     type = None\<rparr>,
    \<lparr>key = lit ''s1-2'',
     title = lit ''Slide 2 '' @ [em_dash] @ lit '' Why Data Collection Matters'',
     type = None\<rparr>,
    \<lparr>key = lit ''s1-3'',
     title = lit ''Slide 3 '' @ [em_dash] @ lit '' Principles & Objectives of Field Monitoring'',
     type = None\<rparr>,
    \<lparr>key = lit ''sec-2'',
     title = lit ''Section 2 '' @ [em_dash] @ lit '' Data Collection Methods'',
     type = Some Section\<rparr>,
    \<lparr>key = lit ''s2-1'',
     title = lit ''Slide 4 '' @ [em_dash] @ lit '' Overview of Methods'',
     type = None\<rparr>,
    \<lparr>key = lit ''s2-2'',
     title = lit ''Slide 5 '' @ [em_dash] @ lit '' KII: Definition & Process'',
     type = None\<rparr>,
    \<lparr>key = lit ''s2-3'',
     title = lit ''Slide 7 '' @ [em_dash] @ lit '' FGD: Definition & Process'',
     type = None\<rparr>,
    \<lparr>key = lit ''s2-4'',
     title = lit ''Slide 9 '' @ [em_dash] @ lit '' Observation: Definition & Process'',
     type = None\<rparr>,
    \<lparr>key = lit ''sec-3'',
     title = lit ''Section 3 '' @ [em_dash] @ lit '' Ethics & Safeguarding'',
     type = Some Section\<rparr>,
    \<lparr>key = lit ''s3-1'',
     title = lit ''Slide 11 '' @ [em_dash] @ lit '' Core Ethics'',
     type = None\<rparr>,
    \<lparr>key = lit ''s3-2'',
     title = lit ''Slide 12 '' @ [em_dash] @ lit '' Consent & Confidentiality'',
     type = None\<rparr>,
    \<lparr>key = lit ''s3-3'',
     title = lit ''Slide 13 '' @ [em_dash] @ lit '' Child Safeguarding'',
     type = None\<rparr>,
    \<lparr>key = lit ''s3-4'',
     title = lit ''Slide 14 '' @ [em_dash] @ lit '' Referral Mechanisms'',
     type = None\<rparr>,
    \<lparr>key = lit ''sec-4'',
     title = lit ''Section 4 '' @ [em_dash] @ lit '' Field Monitoring Framework & Tools'',
     type = Some Section\<rparr>,
    \<lparr>key = lit ''s4-1'',
     title = lit ''Slide 15 '' @ [em_dash] @ lit '' FM Process (End-to-End)'',
     type = None\<rparr>,
    \<lparr>key = lit ''s4-2'',
     title = lit ''Slide 16 '' @ [em_dash] @ lit '' Monitoring Types & What to Monitor'',
     type = None\<rparr>,
    \<lparr>key = lit ''s4-3'',
     title = lit ''Slide 17 '' @ [em_dash] @ lit '' Mapping FM Questions to Methods (Triangulation Map)'',
     type = None\<rparr>,
    \<lparr>key = lit ''sec-5'',
     title = lit ''Section 5 '' @ [em_dash] @ lit '' Wrap-Up'',
     type = Some Section\<rparr>,
    \<lparr>key = lit ''s5-1'',
     title = lit ''Slide 18 '' @ [em_dash] @ lit '' Key Takeaways'',
     type = None\<rparr>,
    \<lparr>key = lit ''s5-2'',
     title = lit ''Slide 19 '' @ [em_dash] @ lit '' Resources (added back; previously omitted by others)'',
     type = None\<rparr>,
    \<lparr>key = lit ''appendix'',
     title = lit ''Appendix '' @ [em_dash] @ lit '' Meta-Insights (Facilitator)'',
     type = None\<rparr>]"

section \<open>The jump grid\<close>

text \<open>
  Each entry of the jump grid shows two lines computed from the slide's title:
  \<^verbatim>\<open><div ...>{s.title.replace(/ [U+2014] .*/, "")}</div>\<close> and
  \<^verbatim>\<open><div ...>{s.title.includes("Slide")?s.title.split(" [U+2014] ")[1]:"Section"}</div>\<close>
  where \<^verbatim>\<open>[U+2014]\<close> stands for the em dash of the source. An \<open>undefined\<close> second
  line (no second piece) renders nothing and is \<open>None\<close>.
\<close>

definition separator :: jsstring where
  "separator = lit '' '' @ [em_dash] @ lit '' ''"

definition jump_label :: "jsstring \<Rightarrow> jsstring" where
  "jump_label t = replace_to_eol separator t"

definition jump_subtitle :: "jsstring \<Rightarrow> jsstring option" where
  "jump_subtitle t =
     (if includes_str t (lit ''Slide'') then at_index (split_str t separator) 1
      else Some (lit ''Section''))"

text \<open>
  The specification's reading of the title: the text before the first separator, and the
  text after it (\<open>None\<close> when the title has no separator).
\<close>

fun text_before :: "jsstring \<Rightarrow> jsstring \<Rightarrow> jsstring" where
  "text_before sep [] = []"
| "text_before sep (c # cs) = (if startsWith (c # cs) sep then [] else c # text_before sep cs)"

fun text_after :: "jsstring \<Rightarrow> jsstring \<Rightarrow> jsstring option" where
  "text_after sep [] = None"
| "text_after sep (c # cs) =
     (if startsWith (c # cs) sep then Some (drop (length sep) (c # cs)) else text_after sep cs)"

section \<open>Deck navigation\<close>

text \<open>
  The deck keeps one piece of state, \<open>idx\<close>, and changes it through
  \<^verbatim>\<open>const go = (d: number) => setIdx((i) => Math.max(0, Math.min(total-1, i + d)));\<close>
  The function \<open>go\<close> below is the updater that \<open>go(d)\<close> hands to \<open>setIdx\<close>, with the
  source's \<open>total\<close> as the parameter \<open>tot\<close>. Indices and deltas are integers far below
  the range where a JavaScript number stops being an exact integer, so \<open>int\<close> is used.
\<close>

definition go :: "int \<Rightarrow> int \<Rightarrow> int \<Rightarrow> int" where
  "go tot d i = max 0 (min (tot - 1) (i + d))"

text \<open>A run of \<open>go\<close> calls, one per delta, in order.\<close>

fun go_all :: "int \<Rightarrow> int list \<Rightarrow> int \<Rightarrow> int" where
  "go_all tot [] i = i"
| "go_all tot (d # ds) i = go_all tot ds (go tot d i)"

text \<open>The clamp of the specification, written out by cases.\<close>

definition clamp :: "int \<Rightarrow> int \<Rightarrow> int \<Rightarrow> int" where
  "clamp x lo hi = (if x < lo then lo else if hi < x then hi else x)"

text \<open>\<^verbatim>\<open>const total = slides.length;\<close>\<close>

definition total_slides :: int where
  "total_slides = int (length slides)"

text \<open>
  The page holds at most one mounted \<open>Deck\<close>, with its instance number and its \<open>idx\<close>,
  and the \<open>keydown\<close> listeners registered on \<open>window\<close>. Every mount renders a new
  instance with a new \<open>onKey\<close> closure, so a listener is named by the instance that
  registered it. The state of an instance is gone once it is unmounted: an update sent to
  an instance that is not the mounted one changes nothing.
\<close>

record page =
  deck :: "(nat \<times> int) option"
  listeners :: "nat list"
  next_instance :: nat

definition page0 :: page where
  "page0 = \<lparr>deck = None, listeners = [], next_instance = 0\<rparr>"

definition setIdx :: "nat \<Rightarrow> (int \<Rightarrow> int) \<Rightarrow> page \<Rightarrow> page" where
  "setIdx k f p =
     (case deck p of
        None \<Rightarrow> p
      | Some (k', i) \<Rightarrow> if k' = k then p\<lparr>deck := Some (k, f i)\<rparr> else p)"

definition deck_go :: "nat \<Rightarrow> int \<Rightarrow> page \<Rightarrow> page" where
  "deck_go k d p = setIdx k (go total_slides d) p"

text \<open>A run of \<open>go(d)\<close> calls on the page, one per delta, in order.\<close>

fun deck_go_all :: "nat \<Rightarrow> int list \<Rightarrow> page \<Rightarrow> page" where
  "deck_go_all k [] p = p"
| "deck_go_all k (d # ds) p = deck_go_all k ds (deck_go k d p)"

text \<open>
  \<^verbatim>\<open>const onKey = (e: KeyboardEvent) => {
    if (e.key === "ArrowRight") go(1);
    if (e.key === "ArrowLeft") go(-1);
  };\<close>
\<close>

definition onKey :: "nat \<Rightarrow> jsstring \<Rightarrow> page \<Rightarrow> page" where
  "onKey k pressed p =
     (let p1 = (if pressed = lit ''ArrowRight'' then deck_go k 1 p else p)
      in if pressed = lit ''ArrowLeft'' then deck_go k (- 1) p1 else p1)"

text \<open>
  \<open>addEventListener\<close> ignores a listener that is already registered;
  \<open>removeEventListener\<close> removes the registration of the listener it is given.
\<close>

definition addEventListener :: "nat \<Rightarrow> page \<Rightarrow> page" where
  "addEventListener k p =
     (if k \<in> set (listeners p) then p else p\<lparr>listeners := listeners p @ [k]\<rparr>)"

definition removeEventListener :: "nat \<Rightarrow> page \<Rightarrow> page" where
  "removeEventListener k p = p\<lparr>listeners := remove1 k (listeners p)\<rparr>"

text \<open>
  \<^verbatim>\<open>const [idx, setIdx] = useState(0);
  useEffect(() => {
    ...
    window.addEventListener("keydown", onKey);
    return () => window.removeEventListener("keydown", onKey);
  }, []);\<close>
  The dependency array is empty: the effect runs after the first render of an instance
  and its cleanup runs when the instance unmounts, and neither runs on a re-render.
\<close>

definition mount_deck :: "page \<Rightarrow> page" where
  "mount_deck p =
     (case deck p of
        Some _ \<Rightarrow> p
      | None \<Rightarrow> addEventListener (next_instance p)
                 (p\<lparr>deck := Some (next_instance p, 0),
                    next_instance := Suc (next_instance p)\<rparr>))"

definition unmount_deck :: "page \<Rightarrow> page" where
  "unmount_deck p =
     (case deck p of
        None \<Rightarrow> p
      | Some (k, i) \<Rightarrow> removeEventListener k (p\<lparr>deck := None\<rparr>))"

text \<open>A \<open>keydown\<close> event on \<open>window\<close> calls every registered listener, in order.\<close>

definition keydown :: "jsstring \<Rightarrow> page \<Rightarrow> page" where
  "keydown pressed p = foldl (\<lambda>q k. onKey k pressed q) p (listeners p)"

text \<open>
  \<^verbatim>\<open><Button variant="outline" onClick={() => go(-1)} disabled={idx===0}>...Prev</Button>
  <Button onClick={() => go(1)} disabled={idx===total-1}>Next...</Button>\<close>
  A button is its \<open>disabled\<close> flag and the delta its \<open>onClick\<close> passes to \<open>go\<close>. A
  click on a disabled button dispatches nothing.
\<close>

datatype button = Button (disabled: bool) (onClick: int)

definition prev_button :: "int \<Rightarrow> button" where
  "prev_button idx = Button (idx = 0) (- 1)"

definition next_button :: "int \<Rightarrow> button" where
  "next_button idx = Button (idx = total_slides - 1) 1"

definition click :: "button \<Rightarrow> int option" where
  "click b = (if disabled b then None else Some (onClick b))"

definition press :: "(int \<Rightarrow> button) \<Rightarrow> page \<Rightarrow> page" where
  "press b p =
     (case deck p of
        None \<Rightarrow> p
      | Some (k, i) \<Rightarrow> (case click (b i) of None \<Rightarrow> p | Some d \<Rightarrow> deck_go k d p))"

text \<open>
  \<^verbatim>\<open>{slides.map((s, i) => (<button key={s.key} onClick={() => setIdx(i)} ...>\<close>
  The jump grid has one button for each index of the slide array and no other.
\<close>

definition jump :: "nat \<Rightarrow> page \<Rightarrow> page" where
  "jump j p =
     (case deck p of
        None \<Rightarrow> p
      | Some (k, i) \<Rightarrow> if j < length slides then setIdx k (\<lambda>_. int j) p else p)"

datatype deck_event = DeckMount | DeckUnmount | KeyDown jsstring | ClickPrev | ClickNext | Jump nat

fun deck_step :: "page \<Rightarrow> deck_event \<Rightarrow> page" where
  "deck_step p DeckMount = mount_deck p"
| "deck_step p DeckUnmount = unmount_deck p"
| "deck_step p (KeyDown pressed) = keydown pressed p"
| "deck_step p ClickPrev = press prev_button p"
| "deck_step p ClickNext = press next_button p"
| "deck_step p (Jump j) = jump j p"

definition deck_run :: "deck_event list \<Rightarrow> page \<Rightarrow> page" where
  "deck_run es p = foldl deck_step p es"

text \<open>What holds of the page after every run: one listener exactly while a deck is mounted.\<close>

definition deck_inv :: "page \<Rightarrow> bool" where
  "deck_inv p =
     (case deck p of
        None \<Rightarrow> listeners p = []
      | Some (k, i) \<Rightarrow> listeners p = [k] \<and> 0 \<le> i \<and> i \<le> total_slides - 1)"

section \<open>The one-minute timer\<close>

text \<open>
  \<^verbatim>\<open>const OneMinuteTimer = () => {
    const [seconds, setSeconds] = useState(60);
    const [running, setRunning] = useState(false);
    useEffect(() => {
      if (!running) return;
      if (seconds === 0) return;
      const id = setTimeout(() => setSeconds((s) => s - 1), 1000);
      return () => clearTimeout(id);
    }, [seconds, running]);
    const reset = () => { setSeconds(60); setRunning(false); };
    ...\<close>
  The widget's state is \<open>seconds\<close> and \<open>running\<close>. Beside it the record holds what the
  code keeps outside the component state: whether the widget is mounted, the timeout id
  captured by the cleanup function that the last effect run returned (\<open>None\<close> when it
  returned nothing), and the host's side of \<open>setTimeout\<close>: a clock in milliseconds, the
  pending timeouts of this widget as pairs of id and due time, and the next fresh id.
  The only callback the widget ever schedules is \<^verbatim>\<open>() => setSeconds((s) => s - 1)\<close>,
  so a pending timeout needs no callback field.
\<close>

record timer =
  seconds :: int
  running :: bool
  mounted :: bool
  cleanup :: "nat option"
  clock :: nat
  pending :: "(nat \<times> nat) list"
  next_id :: nat

definition setTimeout :: "nat \<Rightarrow> timer \<Rightarrow> nat \<times> timer" where
  "setTimeout delay w =
     (next_id w,
      w\<lparr>pending := pending w @ [(next_id w, clock w + delay)], next_id := Suc (next_id w)\<rparr>)"

definition clearTimeout :: "nat \<Rightarrow> timer \<Rightarrow> timer" where
  "clearTimeout i w = w\<lparr>pending := filter (\<lambda>p. fst p \<noteq> i) (pending w)\<rparr>"

text \<open>A state update on a widget that is no longer mounted is dropped.\<close>

definition setSeconds :: "(int \<Rightarrow> int) \<Rightarrow> timer \<Rightarrow> timer" where
  "setSeconds f w = (if mounted w then w\<lparr>seconds := f (seconds w)\<rparr> else w)"

definition setRunning :: "bool \<Rightarrow> timer \<Rightarrow> timer" where
  "setRunning b w = (if mounted w then w\<lparr>running := b\<rparr> else w)"

text \<open>The body of the effect, and the cleanup function of the previous run.\<close>

definition effect :: "timer \<Rightarrow> timer" where
  "effect w =
     (if \<not> running w then w\<lparr>cleanup := None\<rparr>
      else if seconds w = 0 then w\<lparr>cleanup := None\<rparr>
      else (case setTimeout 1000 w of (i, w') \<Rightarrow> w'\<lparr>cleanup := Some i\<rparr>))"

definition run_cleanup :: "timer \<Rightarrow> timer" where
  "run_cleanup w = (case cleanup w of None \<Rightarrow> w | Some i \<Rightarrow> clearTimeout i w)"

text \<open>
  After the state updates of one event the widget re-renders. The effect depends on
  \<^verbatim>\<open>[seconds, running]\<close>: when neither differs from the previous render nothing
  happens, otherwise the previous cleanup runs and then the effect. The cleanup and the
  effect run before the next event is handled.
\<close>

definition rerender :: "timer \<Rightarrow> timer \<Rightarrow> timer" where
  "rerender old w =
     (if seconds w = seconds old \<and> running w = running old then w
      else effect (run_cleanup w))"

text \<open>Mounting renders the initial state and runs the effect; unmounting runs the cleanup.\<close>

definition mount :: timer where
  "mount = effect \<lparr>seconds = 60, running = False, mounted = True, cleanup = None,
                   clock = 0, pending = [], next_id = 0\<rparr>"

definition unmount :: "timer \<Rightarrow> timer" where
  "unmount w = (run_cleanup w)\<lparr>mounted := False, cleanup := None\<rparr>"

text \<open>
  The three buttons:
  \<^verbatim>\<open><Button onClick={() => setRunning(true)}>...Start 1:00</Button>
  <Button variant="secondary" onClick={() => setRunning(false)}>...Pause</Button>
  <Button variant="outline" onClick={reset}>...Reset</Button>\<close>
  The two updates of \<open>reset\<close> are batched into one re-render.
\<close>

definition start :: "timer \<Rightarrow> timer" where
  "start w = rerender w (setRunning True w)"

definition pause :: "timer \<Rightarrow> timer" where
  "pause w = rerender w (setRunning False w)"

definition reset :: "timer \<Rightarrow> timer" where
  "reset w = rerender w (setRunning False (setSeconds (\<lambda>_. 60) w))"

text \<open>
  The host fires timeout \<open>i\<close>: it leaves the pending list and its callback
  \<^verbatim>\<open>() => setSeconds((s) => s - 1)\<close> runs.
\<close>

definition fire :: "nat \<Rightarrow> timer \<Rightarrow> timer" where
  "fire i w =
     (let w1 = w\<lparr>pending := filter (\<lambda>p. fst p \<noteq> i) (pending w)\<rparr>
      in rerender w1 (setSeconds (\<lambda>s. s - 1) w1))"

text \<open>
  Time passes one millisecond at a time. After each millisecond the host goes through the
  timeouts that were pending and fires each one that is due and has not been cleared
  meanwhile.
\<close>

fun run_due :: "(nat \<times> nat) list \<Rightarrow> timer \<Rightarrow> timer" where
  "run_due [] w = w"
| "run_due ((i, due) # ps) w =
     run_due ps (if due \<le> clock w \<and> (i, due) \<in> set (pending w) then fire i w else w)"

definition advance1 :: "timer \<Rightarrow> timer" where
  "advance1 w = (let w' = w\<lparr>clock := Suc (clock w)\<rparr> in run_due (pending w') w')"

fun elapse :: "nat \<Rightarrow> timer \<Rightarrow> timer" where
  "elapse 0 w = w"
| "elapse (Suc n) w = elapse n (advance1 w)"

text \<open>Everything that can happen to a mounted timer, and runs of such events.\<close>

datatype event = Start | Pause | Reset | Elapse nat | Unmount

fun timer_step :: "timer \<Rightarrow> event \<Rightarrow> timer" where
  "timer_step w Start = start w"
| "timer_step w Pause = pause w"
| "timer_step w Reset = reset w"
| "timer_step w (Elapse n) = elapse n w"
| "timer_step w Unmount = unmount w"

definition run :: "event list \<Rightarrow> timer \<Rightarrow> timer" where
  "run es w = foldl timer_step w es"

text \<open>
  \<^verbatim>\<open>{String(Math.floor(seconds/60)).padStart(1,"0")}:{String(seconds%60).padStart(2,"0")}\<close>
\<close>

definition timer_text :: "int \<Rightarrow> jsstring" where
  "timer_text s =
     padStart 1 (lit ''0'') (String (s div 60)) @ lit '':''
       @ padStart 2 (lit ''0'') (String (rem s 60))"

text \<open>
  The specification's zero padding of a number to a width: its decimal digits, with as
  many zeros in front as the width still needs.
\<close>

definition zero_padded :: "nat \<Rightarrow> nat \<Rightarrow> jsstring" where
  "zero_padded width n = replicate (width - length (digits n)) 48 @ digits n"

text \<open>
  The invariant of the timer: \<open>seconds\<close> stays in range, and a timeout is pending exactly
  while the widget is mounted, running and above zero; then it is the only one, it is the
  one the cleanup will clear, and it is due within the next second.
\<close>

definition timer_inv :: "timer \<Rightarrow> bool" where
  "timer_inv w \<longleftrightarrow> 0 \<le> seconds w \<and> seconds w \<le> 60 \<and>
     (if mounted w \<and> running w \<and> seconds w \<noteq> 0
      then \<exists>i due. pending w = [(i, due)] \<and> cleanup w = Some i
             \<and> clock w < due \<and> due \<le> clock w + 1000
      else pending w = [] \<and> cleanup w = None)"

text \<open>A timer that is counting, with its one pending tick due at \<open>due\<close>.\<close>

definition ticking :: "timer \<Rightarrow> nat \<Rightarrow> bool" where
  "ticking w due \<longleftrightarrow> mounted w \<and> running w \<and> 0 < seconds w \<and> clock w < due \<and>
     (\<exists>i. pending w = [(i, due)] \<and> cleanup w = Some i)"

section \<open>Properties of the index updater\<close>

lemma go_in_range: "1 \<le> tot \<Longrightarrow> 0 \<le> go tot d i \<and> go tot d i \<le> tot - 1"
  by (simp add: go_def)

lemma go_all_in_range:
  "1 \<le> tot \<Longrightarrow> 0 \<le> i \<Longrightarrow> i \<le> tot - 1 \<Longrightarrow>
   0 \<le> go_all tot ds i \<and> go_all tot ds i \<le> tot - 1"
proof (induction ds arbitrary: i)
  case Nil
  then show ?case by simp
next
  case (Cons d ds)
  have "0 \<le> go tot d i" "go tot d i \<le> tot - 1"
    using go_in_range [OF Cons.prems(1)] by simp_all
  then show ?case using Cons.IH [OF Cons.prems(1)] by simp
qed

lemma go_forward_n:
  "int n \<le> tot - 1 \<Longrightarrow> (go tot 1 ^^ n) 0 = int n"
  by (induction n) (simp_all add: go_def)

lemma go_forward_saturates:
  assumes "1 \<le> tot"
  shows "(go tot 1 ^^ nat tot) 0 = tot - 1"
proof -
  obtain m where m: "nat tot = Suc m" using assms by (cases "nat tot") simp_all
  then have tm: "tot = int m + 1" using assms by linarith
  have "(go tot 1 ^^ m) 0 = int m" by (rule go_forward_n) (simp add: tm)
  moreover have "(go tot 1 ^^ nat tot) 0 = go tot 1 ((go tot 1 ^^ m) 0)"
    by (simp only: m funpow.simps o_apply)
  moreover have "go tot 1 (int m) = tot - 1" by (simp add: go_def tm)
  ultimately show ?thesis by simp
qed

lemma total_slides: "total_slides = 22"
  by (simp add: total_slides_def slides_def)

lemma deck_go_mounted:
  "deck p = Some (k, i) \<Longrightarrow> deck_go k d p = p\<lparr>deck := Some (k, go total_slides d i)\<rparr>"
  by (simp add: deck_go_def setIdx_def)

lemma deck_go_all_mounted:
  "deck p = Some (k, i) \<Longrightarrow>
   deck_go_all k ds p = p\<lparr>deck := Some (k, go_all total_slides ds i)\<rparr>"
proof (induction ds arbitrary: p i)
  case Nil
  then show ?case by simp
next
  case (Cons d ds)
  have "deck (deck_go k d p) = Some (k, go total_slides d i)"
    by (simp add: deck_go_mounted [OF Cons.prems])
  from Cons.IH [OF this] show ?case by (simp add: deck_go_mounted [OF Cons.prems])
qed

lemma deck_go_funpow:
  "deck p = Some (k, i) \<Longrightarrow>
   (deck_go k d ^^ n) p = p\<lparr>deck := Some (k, (go total_slides d ^^ n) i)\<rparr>"
proof (induction n)
  case 0
  then show ?case by simp
next
  case (Suc n)
  have "deck (p\<lparr>deck := Some (k, (go total_slides d ^^ n) i)\<rparr>)
      = Some (k, (go total_slides d ^^ n) i)"
    by simp
  from deck_go_mounted [OF this] show ?case using Suc by simp
qed

text \<open>
  Claim C1. For every integer delta and every index in \<open>[0, tot - 1]\<close>, the updater
  \<open>go\<close> gives the clamp of \<open>i + d\<close> into \<open>[0, tot - 1]\<close>; at index 0 a non-positive
  delta and at index \<open>tot - 1\<close> a non-negative delta give the index back; any finite run
  of updates from a valid index stays in \<open>[0, tot - 1]\<close>; and \<open>go 1\<close> applied \<open>tot\<close>
  times from index 0 ends at \<open>tot - 1\<close>. On the page, with \<open>tot\<close> the length of the
  slide array and a deck mounted at index \<open>i\<close>: \<open>go(d)\<close> sets the deck's index to that
  clamp and touches nothing else, it leaves the page as it is at either boundary, a run
  of \<open>go\<close> calls sets the index to what the run of updates gives, and from index 0
  \<open>go(1)\<close> called \<open>tot\<close> times leaves the index at \<open>tot - 1\<close>.
\<close>

theorem go_clamps_and_saturates:
  assumes "0 \<le> i" and "i \<le> tot - 1"
  shows "go tot d i = clamp (i + d) 0 (tot - 1)
    \<and> (i = 0 \<and> d \<le> 0 \<longrightarrow> go tot d i = i)
    \<and> (i = tot - 1 \<and> 0 \<le> d \<longrightarrow> go tot d i = i)
    \<and> 0 \<le> go_all tot ds i \<and> go_all tot ds i \<le> tot - 1
    \<and> (go tot 1 ^^ nat tot) 0 = tot - 1
    \<and> (\<forall>p k. tot = total_slides \<and> deck p = Some (k, i) \<longrightarrow>
          deck_go k d p = p\<lparr>deck := Some (k, clamp (i + d) 0 (total_slides - 1))\<rparr>
        \<and> (i = 0 \<and> d \<le> 0 \<longrightarrow> deck_go k d p = p)
        \<and> (i = total_slides - 1 \<and> 0 \<le> d \<longrightarrow> deck_go k d p = p)
        \<and> deck_go_all k ds p = p\<lparr>deck := Some (k, go_all total_slides ds i)\<rparr>
        \<and> (i = 0 \<longrightarrow>
             (deck_go k 1 ^^ nat total_slides) p = p\<lparr>deck := Some (k, total_slides - 1)\<rparr>))"
proof -
  have t: "1 \<le> tot" using assms by linarith
  have c: "go tot d i = clamp (i + d) 0 (tot - 1)"
    using t by (simp add: go_def clamp_def)
  have lo: "i = 0 \<and> d \<le> 0 \<longrightarrow> go tot d i = i"
    using t by (simp add: go_def)
  have hi: "i = tot - 1 \<and> 0 \<le> d \<longrightarrow> go tot d i = i"
    using t by (simp add: go_def)
  have r: "0 \<le> go_all tot ds i \<and> go_all tot ds i \<le> tot - 1"
    using go_all_in_range [OF t assms] .
  have s: "(go tot 1 ^^ nat tot) 0 = tot - 1"
    using go_forward_saturates [OF t] .
  have pg: "\<forall>p k. tot = total_slides \<and> deck p = Some (k, i) \<longrightarrow>
          deck_go k d p = p\<lparr>deck := Some (k, clamp (i + d) 0 (total_slides - 1))\<rparr>
        \<and> (i = 0 \<and> d \<le> 0 \<longrightarrow> deck_go k d p = p)
        \<and> (i = total_slides - 1 \<and> 0 \<le> d \<longrightarrow> deck_go k d p = p)
        \<and> deck_go_all k ds p = p\<lparr>deck := Some (k, go_all total_slides ds i)\<rparr>
        \<and> (i = 0 \<longrightarrow>
             (deck_go k 1 ^^ nat total_slides) p = p\<lparr>deck := Some (k, total_slides - 1)\<rparr>)"
  proof (intro allI impI)
    fix p :: page and k :: nat
    assume h: "tot = total_slides \<and> deck p = Some (k, i)"
    then have e: "tot = total_slides" and dp: "deck p = Some (k, i)" by blast+
    have same: "p\<lparr>deck := Some (k, i)\<rparr> = p" using dp by simp
    have g: "deck_go k d p = p\<lparr>deck := Some (k, go total_slides d i)\<rparr>"
      using dp by (rule deck_go_mounted)
    have a1: "deck_go k d p = p\<lparr>deck := Some (k, clamp (i + d) 0 (total_slides - 1))\<rparr>"
      using g c by (simp add: e)
    have a2: "i = 0 \<and> d \<le> 0 \<longrightarrow> deck_go k d p = p"
    proof
      assume "i = 0 \<and> d \<le> 0"
      then have "go total_slides d i = i" using lo e by simp
      then show "deck_go k d p = p" using g same by simp
    qed
    have a3: "i = total_slides - 1 \<and> 0 \<le> d \<longrightarrow> deck_go k d p = p"
    proof
      assume "i = total_slides - 1 \<and> 0 \<le> d"
      then have "go total_slides d i = i" using hi e by simp
      then show "deck_go k d p = p" using g same by simp
    qed
    have a4: "deck_go_all k ds p = p\<lparr>deck := Some (k, go_all total_slides ds i)\<rparr>"
      using dp by (rule deck_go_all_mounted)
    have a5: "i = 0 \<longrightarrow>
        (deck_go k 1 ^^ nat total_slides) p = p\<lparr>deck := Some (k, total_slides - 1)\<rparr>"
      using deck_go_funpow [OF dp, where d = 1 and n = "nat total_slides"] s by (simp add: e)
    show "deck_go k d p = p\<lparr>deck := Some (k, clamp (i + d) 0 (total_slides - 1))\<rparr>
        \<and> (i = 0 \<and> d \<le> 0 \<longrightarrow> deck_go k d p = p)
        \<and> (i = total_slides - 1 \<and> 0 \<le> d \<longrightarrow> deck_go k d p = p)
        \<and> deck_go_all k ds p = p\<lparr>deck := Some (k, go_all total_slides ds i)\<rparr>
        \<and> (i = 0 \<longrightarrow>
             (deck_go k 1 ^^ nat total_slides) p = p\<lparr>deck := Some (k, total_slides - 1)\<rparr>)"
      using a1 a2 a3 a4 a5 by blast
  qed
  show ?thesis using c lo hi r s pg by blast
qed

theorem go_clamps_and_saturates_witness:
  "(0::int) \<le> 21 \<and> (21::int) \<le> total_slides - 1
   \<and> go total_slides 5 21 = clamp (21 + 5) 0 (total_slides - 1)
   \<and> go total_slides 5 21 = 21
   \<and> go total_slides (- 1) 0 = 0
   \<and> 0 \<le> go_all total_slides [1, - 30, 2] 21
   \<and> go_all total_slides [1, - 30, 2] 21 \<le> total_slides - 1
   \<and> (go total_slides 1 ^^ nat total_slides) 0 = total_slides - 1
   \<and> deck_go 0 5 \<lparr>deck = Some (0, 21), listeners = [0], next_instance = 1\<rparr>
       = \<lparr>deck = Some (0, 21), listeners = [0], next_instance = 1\<rparr>
   \<and> deck_go 0 5 \<lparr>deck = Some (0, 0), listeners = [0], next_instance = 1\<rparr>
       = \<lparr>deck = Some (0, 5), listeners = [0], next_instance = 1\<rparr>
   \<and> deck_go 0 (- 1) \<lparr>deck = Some (0, 0), listeners = [0], next_instance = 1\<rparr>
       = \<lparr>deck = Some (0, 0), listeners = [0], next_instance = 1\<rparr>
   \<and> (deck_go 0 1 ^^ nat total_slides) \<lparr>deck = Some (0, 0), listeners = [0], next_instance = 1\<rparr>
       = \<lparr>deck = Some (0, 21), listeners = [0], next_instance = 1\<rparr>"
proof -
  define p21 :: page where "p21 = \<lparr>deck = Some (0, 21), listeners = [0], next_instance = 1\<rparr>"
  define p0 :: page where "p0 = \<lparr>deck = Some (0, 0), listeners = [0], next_instance = 1\<rparr>"
  have h21: "(0::int) \<le> 21" "(21::int) \<le> total_slides - 1"
    and h0: "(0::int) \<le> 0" "(0::int) \<le> total_slides - 1"
    by (simp_all add: total_slides)
  have d21: "total_slides = total_slides \<and> deck p21 = Some (0, 21)"
    and d0: "total_slides = total_slides \<and> deck p0 = Some (0, 0)"
    by (simp_all add: p21_def p0_def)
  note A = go_clamps_and_saturates [OF h21, of 5 "[1, - 30, 2]"]
  note B = go_clamps_and_saturates [OF h0, of "- 1" "[]"]
  note C = go_clamps_and_saturates [OF h0, of 5 "[]"]
  have a: "go total_slides 5 21 = clamp (21 + 5) 0 (total_slides - 1)"
    "0 \<le> go_all total_slides [1, - 30, 2] 21"
    "go_all total_slides [1, - 30, 2] 21 \<le> total_slides - 1"
    "(go total_slides 1 ^^ nat total_slides) 0 = total_slides - 1"
    "go total_slides 5 21 = 21"
    using A by (simp_all add: total_slides)
  have a': "deck_go 0 5 p21 = p21" using A d21 by (simp add: total_slides)
  have b: "go total_slides (- 1) 0 = 0" using B by simp
  have b': "deck_go 0 (- 1) p0 = p0"
    "(deck_go 0 1 ^^ nat total_slides) p0 = p0\<lparr>deck := Some (0, total_slides - 1)\<rparr>"
    using B d0 by simp_all
  have c': "deck_go 0 5 p0 = p0\<lparr>deck := Some (0, clamp (0 + 5) 0 (total_slides - 1))\<rparr>"
    using C d0 by blast
  have e: "p0\<lparr>deck := Some (0, total_slides - 1)\<rparr>
      = \<lparr>deck = Some (0, 21), listeners = [0], next_instance = 1\<rparr>"
    "p0\<lparr>deck := Some (0, clamp (0 + 5) 0 (total_slides - 1))\<rparr>
      = \<lparr>deck = Some (0, 5), listeners = [0], next_instance = 1\<rparr>"
    by (simp_all add: p0_def total_slides clamp_def)
  show ?thesis
    using h21 a a' b b' c' unfolding e unfolding p21_def p0_def by simp
qed

section \<open>The timer's text\<close>

lemma digits_one: "n < 10 \<Longrightarrow> digits n = [48 + n]"
  by (simp add: digits.simps)

lemma digits_two: "10 \<le> n \<Longrightarrow> n < 100 \<Longrightarrow> digits n = [48 + n div 10, 48 + n mod 10]"
  by (subst digits.simps) (simp add: digits_one)

lemma padStart_zero: "padStart n (lit ''0'') s = replicate (n - length s) 48 @ s"
  by (simp add: padStart_def lit_def)

lemma String_nonneg: "0 \<le> x \<Longrightarrow> String x = digits (nat x)"
  by (simp add: String_def)

lemma timer_text_nonneg:
  assumes "0 \<le> r"
  shows "timer_text r = zero_padded 1 (nat (r div 60)) @ lit '':'' @ zero_padded 2 (nat (r mod 60))"
proof -
  have "0 \<le> r div 60" using assms by (simp add: pos_imp_zdiv_nonneg_iff)
  moreover have "rem r 60 = r mod 60" "0 \<le> r mod 60" using assms by (simp_all add: rem_def)
  ultimately show ?thesis
    by (simp add: timer_text_def padStart_zero String_nonneg zero_padded_def)
qed

lemma timer_text_chars:
  assumes "0 \<le> r" and "r < 600"
  shows "timer_text r
     = [48 + nat (r div 60), 58, 48 + nat (r mod 60) div 10, 48 + nat (r mod 60) mod 10]"
proof -
  have m: "nat (r div 60) < 10" using assms by simp
  have s: "nat (r mod 60) < 100" by simp
  have z1: "zero_padded 1 (nat (r div 60)) = [48 + nat (r div 60)]"
    using m by (simp add: zero_padded_def digits_one)
  have z2: "zero_padded 2 (nat (r mod 60)) = [48 + nat (r mod 60) div 10, 48 + nat (r mod 60) mod 10]"
  proof (cases "nat (r mod 60) < 10")
    case True
    then show ?thesis by (simp add: zero_padded_def digits_one)
  next
    case False
    then have "10 \<le> nat (r mod 60)" by simp
    then show ?thesis using s by (simp add: zero_padded_def digits_two)
  qed
  show ?thesis unfolding timer_text_nonneg [OF assms(1)] z1 z2 by (simp add: lit_def)
qed

text \<open>
  Claim C6. For every \<open>seconds\<close> in \<open>[0, 60]\<close> the text shown is the minutes
  \<open>seconds div 60\<close> zero-padded to width 1, a colon, and \<open>seconds mod 60\<close> zero-padded to
  width 2, which is one minute digit, the colon and two second digits; 60 shows as
  \<open>1:00\<close> and 5 as \<open>0:05\<close>.
\<close>

theorem timer_text_format:
  assumes "0 \<le> r" and "r \<le> 60"
  shows "timer_text r = zero_padded 1 (nat (r div 60)) @ lit '':'' @ zero_padded 2 (nat (r mod 60))
     \<and> timer_text r
         = [48 + nat (r div 60), 58, 48 + nat (r mod 60) div 10, 48 + nat (r mod 60) mod 10]
     \<and> timer_text 60 = lit ''1:00''
     \<and> timer_text 5 = lit ''0:05''"
proof -
  have a: "timer_text r = zero_padded 1 (nat (r div 60)) @ lit '':'' @ zero_padded 2 (nat (r mod 60))"
    using assms(1) by (rule timer_text_nonneg)
  have b: "timer_text r
         = [48 + nat (r div 60), 58, 48 + nat (r mod 60) div 10, 48 + nat (r mod 60) mod 10]"
    using assms by (intro timer_text_chars) simp_all
  have c: "timer_text 60 = lit ''1:00''"
    using timer_text_chars [of 60] by (simp add: lit_def)
  have d: "timer_text 5 = lit ''0:05''"
    using timer_text_chars [of 5] by (simp add: lit_def)
  show ?thesis using a b c d by blast
qed

theorem timer_text_format_witness:
  "(0::int) \<le> 42 \<and> (42::int) \<le> 60 \<and> timer_text 42 = lit ''0:42''"
proof -
  have h: "(0::int) \<le> 42" "(42::int) \<le> 60" by simp_all
  from timer_text_format [OF h]
  have "timer_text 42
      = [48 + nat (42 div 60), 58, 48 + nat (42 mod 60) div 10, 48 + nat (42 mod 60) mod 10]"
    by blast
  then show ?thesis by (simp add: lit_def)
qed

section \<open>The jump grid's two lines\<close>

lemma slides_length: "length slides = 22"
  by (simp add: slides_def)

lemma first_title:
  "title (slides ! 0)
     = lit ''Section 1 '' @ [em_dash] @ lit '' Foundations (FMM, Principles, Objectives)''"
  by (simp add: slides_def)

lemma second_title:
  "title (slides ! 1) = lit ''Slide 1 '' @ [em_dash] @ lit '' Title & Session Map''"
  by (simp add: slides_def)

text \<open>
  Claim C9, as stated: for every slide, the short label is the text before the em-dash
  separator of the title and the subtitle is the text after it. This fails on the first
  slide, a section divider: its title has no \<open>Slide\<close> in it, so its subtitle is the fixed
  word \<open>Section\<close> and not \<open>Foundations (FMM, Principles, Objectives)\<close>.
\<close>

theorem jump_subtitle_of_section_counterexample:
  "title (slides ! 0)
     = lit ''Section 1 '' @ [em_dash] @ lit '' Foundations (FMM, Principles, Objectives)''
   \<and> text_after separator (title (slides ! 0))
     = Some (lit ''Foundations (FMM, Principles, Objectives)'')
   \<and> jump_subtitle (title (slides ! 0)) = Some (lit ''Section'')
   \<and> jump_subtitle (title (slides ! 0)) \<noteq> text_after separator (title (slides ! 0))"
  unfolding first_title
  by (simp add: jump_subtitle_def separator_def lit_def em_dash_def startsWith_def)

text \<open>
  Claim C9, amended: for every slide of the deck, the short label is the text before the
  em-dash separator of the title; the subtitle is the text after the separator when the
  title contains \<open>Slide\<close>, and the fixed word \<open>Section\<close> otherwise.
\<close>

theorem jump_grid_lines_from_title:
  "\<forall>s \<in> set slides.
     jump_label (title s) = text_before separator (title s)
     \<and> jump_subtitle (title s)
       = (if includes_str (title s) (lit ''Slide'') then text_after separator (title s)
          else Some (lit ''Section''))"
  by (simp add: slides_def jump_label_def jump_subtitle_def separator_def lit_def em_dash_def
      startsWith_def split_str_def at_index_def line_terminator_def)

theorem jump_grid_lines_from_title_witness:
  "slides ! 1 \<in> set slides
   \<and> jump_label (title (slides ! 1)) = lit ''Slide 1''
   \<and> jump_subtitle (title (slides ! 1)) = Some (lit ''Title & Session Map'')
   \<and> slides ! 0 \<in> set slides
   \<and> jump_label (title (slides ! 0)) = lit ''Section 1''
   \<and> jump_subtitle (title (slides ! 0)) = Some (lit ''Section'')"
proof -
  have m: "slides ! 1 \<in> set slides" by (rule nth_mem) (simp add: slides_length)
  have b: "text_before separator (title (slides ! 1)) = lit ''Slide 1''"
    unfolding second_title by (simp add: separator_def lit_def em_dash_def startsWith_def)
  have a: "text_after separator (title (slides ! 1)) = Some (lit ''Title & Session Map'')"
    unfolding second_title by (simp add: separator_def lit_def em_dash_def startsWith_def)
  have i: "includes_str (title (slides ! 1)) (lit ''Slide'')"
    unfolding second_title by (simp add: lit_def em_dash_def startsWith_def)
  have m0: "slides ! 0 \<in> set slides" by (rule nth_mem) (simp add: slides_length)
  have b0: "text_before separator (title (slides ! 0)) = lit ''Section 1''"
    unfolding first_title by (simp add: separator_def lit_def em_dash_def startsWith_def)
  have i0: "\<not> includes_str (title (slides ! 0)) (lit ''Slide'')"
    unfolding first_title by (simp add: lit_def em_dash_def startsWith_def)
  show ?thesis
    using jump_grid_lines_from_title [rule_format, OF m]
      jump_grid_lines_from_title [rule_format, OF m0] m m0 a b i b0 i0
    by simp
qed

section \<open>Keyboard and buttons of the deck\<close>

lemma arrows_differ: "lit ''ArrowRight'' \<noteq> lit ''ArrowLeft''"
  by (simp add: lit_def)

lemma keydown_mounted:
  "deck p = Some (k, i) \<Longrightarrow> listeners p = [k] \<Longrightarrow>
   keydown pressed p =
     (if pressed = lit ''ArrowRight'' then p\<lparr>deck := Some (k, go total_slides 1 i)\<rparr>
      else if pressed = lit ''ArrowLeft'' then p\<lparr>deck := Some (k, go total_slides (- 1) i)\<rparr>
      else p)"
  using arrows_differ by (simp add: keydown_def onKey_def deck_go_def setIdx_def)

lemma keydown_unmounted: "listeners p = [] \<Longrightarrow> keydown pressed p = p"
  by (simp add: keydown_def)

lemma go_range: "0 \<le> go total_slides d i \<and> go total_slides d i \<le> total_slides - 1"
  by (simp add: go_def total_slides)

lemma inv_page0: "deck_inv page0"
  by (simp add: deck_inv_def page0_def)

lemma inv_mount_deck: "deck_inv p \<Longrightarrow> deck_inv (mount_deck p)"
  by (auto simp: deck_inv_def mount_deck_def addEventListener_def total_slides split: option.splits)

lemma inv_unmount_deck: "deck_inv p \<Longrightarrow> deck_inv (unmount_deck p)"
  by (auto simp: deck_inv_def unmount_deck_def removeEventListener_def split: option.splits)

lemma inv_keydown: "deck_inv p \<Longrightarrow> deck_inv (keydown pressed p)"
proof (cases "deck p")
  case None
  assume "deck_inv p"
  then show ?thesis using None by (simp add: deck_inv_def keydown_unmounted)
next
  case (Some a)
  assume i: "deck_inv p"
  obtain k i where a: "a = (k, i)" by (cases a)
  have l: "listeners p = [k]" using i Some a by (simp add: deck_inv_def)
  show ?thesis using i go_range Some a l
    by (simp add: keydown_mounted [of p k i] deck_inv_def)
qed

lemma inv_press: "deck_inv p \<Longrightarrow> deck_inv (press b p)"
  using go_range
  by (auto simp: deck_inv_def press_def deck_go_def setIdx_def split: option.splits)

lemma inv_jump: "deck_inv p \<Longrightarrow> deck_inv (jump j p)"
  by (auto simp: deck_inv_def jump_def setIdx_def total_slides_def split: option.splits)

lemma inv_deck_step: "deck_inv p \<Longrightarrow> deck_inv (deck_step p e)"
  by (cases e) (simp_all add: inv_mount_deck inv_unmount_deck inv_keydown inv_press inv_jump)

lemma inv_deck_foldl: "deck_inv p \<Longrightarrow> deck_inv (foldl deck_step p es)"
  by (induction es arbitrary: p) (simp_all add: inv_deck_step)

lemma inv_deck_run: "deck_inv (deck_run es page0)"
  by (simp add: deck_run_def inv_deck_foldl inv_page0)

lemma remount_run:
  "deck_run [DeckMount, KeyDown (lit ''ArrowRight''), DeckUnmount, DeckMount, KeyDown (lit ''ArrowRight'')] page0
   = \<lparr>deck = Some (1, 1), listeners = [1], next_instance = 2\<rparr>"
  using arrows_differ
  by (simp add: deck_run_def page0_def mount_deck_def unmount_deck_def addEventListener_def
      removeEventListener_def keydown_def onKey_def deck_go_def setIdx_def go_def total_slides)

text \<open>
  Claim C8. After every run of mounts, unmounts, key presses and clicks: while a deck is
  mounted exactly one \<open>keydown\<close> listener is registered, its own, and a right-arrow key
  sets the index to \<open>go 1\<close> of it and a left-arrow key to \<open>go (-1)\<close> of it; while no
  deck is mounted no listener is registered and a key event changes nothing.
\<close>

theorem arrow_keys_step_while_mounted:
  "(\<forall>k i. deck (deck_run es page0) = Some (k, i) \<longrightarrow>
       listeners (deck_run es page0) = [k]
     \<and> keydown (lit ''ArrowRight'') (deck_run es page0)
         = (deck_run es page0)\<lparr>deck := Some (k, go total_slides 1 i)\<rparr>
     \<and> keydown (lit ''ArrowLeft'') (deck_run es page0)
         = (deck_run es page0)\<lparr>deck := Some (k, go total_slides (- 1) i)\<rparr>)
   \<and> (deck (deck_run es page0) = None \<longrightarrow>
       listeners (deck_run es page0) = []
     \<and> (\<forall>pressed. keydown pressed (deck_run es page0) = deck_run es page0))"
proof -
  define p where "p = deck_run es page0"
  have i: "deck_inv p" unfolding p_def by (rule inv_deck_run)
  have a: "\<forall>k i. deck p = Some (k, i) \<longrightarrow> listeners p = [k]
     \<and> keydown (lit ''ArrowRight'') p = p\<lparr>deck := Some (k, go total_slides 1 i)\<rparr>
     \<and> keydown (lit ''ArrowLeft'') p = p\<lparr>deck := Some (k, go total_slides (- 1) i)\<rparr>"
  proof (intro allI impI)
    fix k i assume d: "deck p = Some (k, i)"
    then have l: "listeners p = [k]" using i by (simp add: deck_inv_def)
    show "listeners p = [k]
     \<and> keydown (lit ''ArrowRight'') p = p\<lparr>deck := Some (k, go total_slides 1 i)\<rparr>
     \<and> keydown (lit ''ArrowLeft'') p = p\<lparr>deck := Some (k, go total_slides (- 1) i)\<rparr>"
      using l arrows_differ by (simp add: keydown_mounted [OF d l])
  qed
  have b: "deck p = None \<longrightarrow> listeners p = [] \<and> (\<forall>pressed. keydown pressed p = p)"
    using i by (auto simp: deck_inv_def keydown_unmounted)
  show ?thesis using a b unfolding p_def by blast
qed

theorem arrow_keys_step_while_mounted_witness:
  "deck (deck_run [DeckMount, KeyDown (lit ''ArrowRight''), DeckUnmount, DeckMount,
                   KeyDown (lit ''ArrowRight'')] page0) = Some (1, 1)
   \<and> listeners (deck_run [DeckMount, KeyDown (lit ''ArrowRight''), DeckUnmount, DeckMount,
                   KeyDown (lit ''ArrowRight'')] page0) = [1]
   \<and> deck (keydown (lit ''ArrowRight'')
        (deck_run [DeckMount, KeyDown (lit ''ArrowRight''), DeckUnmount, DeckMount,
                   KeyDown (lit ''ArrowRight'')] page0)) = Some (1, 2)
   \<and> deck (keydown (lit ''ArrowLeft'')
        (deck_run [DeckMount, KeyDown (lit ''ArrowRight''), DeckUnmount, DeckMount,
                   KeyDown (lit ''ArrowRight'')] page0)) = Some (1, 0)
   \<and> deck (deck_run [DeckMount, DeckUnmount] page0) = None
   \<and> keydown (lit ''ArrowRight'') (deck_run [DeckMount, DeckUnmount] page0)
       = deck_run [DeckMount, DeckUnmount] page0"
proof -
  define p where "p = deck_run [DeckMount, KeyDown (lit ''ArrowRight''), DeckUnmount, DeckMount,
                   KeyDown (lit ''ArrowRight'')] page0"
  define q where "q = deck_run [DeckMount, DeckUnmount] page0"
  have dp: "deck p = Some (1, 1)" unfolding p_def by (simp add: remount_run)
  have dq: "deck q = None"
    unfolding q_def
    by (simp add: deck_run_def page0_def mount_deck_def unmount_deck_def addEventListener_def
        removeEventListener_def)
  have g: "go total_slides 1 1 = 2" "go total_slides (- 1) 1 = 0"
    by (simp_all add: go_def total_slides)
  have a: "listeners p = [1]"
    "keydown (lit ''ArrowRight'') p = p\<lparr>deck := Some (1, go total_slides 1 1)\<rparr>"
    "keydown (lit ''ArrowLeft'') p = p\<lparr>deck := Some (1, go total_slides (- 1) 1)\<rparr>"
    using arrow_keys_step_while_mounted
      [of "[DeckMount, KeyDown (lit ''ArrowRight''), DeckUnmount, DeckMount,
            KeyDown (lit ''ArrowRight'')]"] dp
    unfolding p_def [symmetric] by blast+
  have b: "keydown (lit ''ArrowRight'') q = q"
    using arrow_keys_step_while_mounted [of "[DeckMount, DeckUnmount]"] dq
    unfolding q_def [symmetric] by blast
  show ?thesis using dp dq a b unfolding p_def [symmetric] q_def [symmetric] by (simp add: g)
qed

lemma click_prev_button:
  "click (prev_button i) = (if i = 0 then None else Some (- 1))"
  by (simp add: click_def prev_button_def)

lemma click_next_button:
  "click (next_button i) = (if i = total_slides - 1 then None else Some 1)"
  by (simp add: click_def next_button_def)

lemma go_inside: "0 \<le> i + d \<Longrightarrow> i + d \<le> total_slides - 1 \<Longrightarrow> go total_slides d i = i + d"
  by (simp add: go_def)

lemma mount_run: "deck_run [DeckMount] page0 = \<lparr>deck = Some (0, 0), listeners = [0], next_instance = 1\<rparr>"
  by (simp add: deck_run_def page0_def mount_deck_def addEventListener_def)

text \<open>
  Claim C10. In every state of a mounted deck, Prev is disabled exactly when the index is
  0 and Next exactly when it is \<open>total - 1\<close>. So a click that reaches \<open>go\<close> always asks
  for an index inside the range, which \<open>go\<close> grants unclamped; at a boundary the button
  towards the outside dispatches nothing, while the arrow key towards the outside still
  calls \<open>go\<close>, which clamps and leaves the page as it was.
\<close>

theorem buttons_disabled_exactly_at_boundaries:
  "\<forall>k i. deck (deck_run es page0) = Some (k, i) \<longrightarrow>
      disabled (prev_button i) = (i = 0)
    \<and> disabled (next_button i) = (i = total_slides - 1)
    \<and> (\<forall>d. click (prev_button i) = Some d \<longrightarrow>
          d = - 1 \<and> 0 \<le> i + d \<and> go total_slides d i = i + d)
    \<and> (\<forall>d. click (next_button i) = Some d \<longrightarrow>
          d = 1 \<and> i + d \<le> total_slides - 1 \<and> go total_slides d i = i + d)
    \<and> (i = 0 \<longrightarrow> click (prev_button i) = None
          \<and> press prev_button (deck_run es page0) = deck_run es page0
          \<and> keydown (lit ''ArrowLeft'') (deck_run es page0)
              = (deck_run es page0)\<lparr>deck := Some (k, go total_slides (- 1) i)\<rparr>
          \<and> keydown (lit ''ArrowLeft'') (deck_run es page0) = deck_run es page0)
    \<and> (i = total_slides - 1 \<longrightarrow> click (next_button i) = None
          \<and> press next_button (deck_run es page0) = deck_run es page0
          \<and> keydown (lit ''ArrowRight'') (deck_run es page0)
              = (deck_run es page0)\<lparr>deck := Some (k, go total_slides 1 i)\<rparr>
          \<and> keydown (lit ''ArrowRight'') (deck_run es page0) = deck_run es page0)"
proof (intro allI impI)
  fix k i
  define p where "p = deck_run es page0"
  assume "deck (deck_run es page0) = Some (k, i)"
  then have d: "deck p = Some (k, i)" by (simp add: p_def)
  have inv: "deck_inv p" unfolding p_def by (rule inv_deck_run)
  have l: "listeners p = [k]" and r: "0 \<le> i" "i \<le> total_slides - 1"
    using inv d by (simp_all add: deck_inv_def)
  have same: "p\<lparr>deck := Some (k, i)\<rparr> = p" using d by simp
  have c1: "disabled (prev_button i) = (i = 0)" by (simp add: prev_button_def)
  have c2: "disabled (next_button i) = (i = total_slides - 1)" by (simp add: next_button_def)
  have c3: "\<forall>d. click (prev_button i) = Some d \<longrightarrow>
          d = - 1 \<and> 0 \<le> i + d \<and> go total_slides d i = i + d"
    using r by (auto simp: click_prev_button go_inside split: if_splits)
  have c4: "\<forall>d. click (next_button i) = Some d \<longrightarrow>
          d = 1 \<and> i + d \<le> total_slides - 1 \<and> go total_slides d i = i + d"
    using r by (auto simp: click_next_button go_inside split: if_splits)
  have c5: "i = 0 \<longrightarrow> click (prev_button i) = None
          \<and> press prev_button p = p
          \<and> keydown (lit ''ArrowLeft'') p = p\<lparr>deck := Some (k, go total_slides (- 1) i)\<rparr>
          \<and> keydown (lit ''ArrowLeft'') p = p"
  proof
    assume z: "i = 0"
    have g: "go total_slides (- 1) i = i" using z by (simp add: go_def total_slides)
    have k: "keydown (lit ''ArrowLeft'') p = p\<lparr>deck := Some (k, go total_slides (- 1) i)\<rparr>"
      using arrows_differ by (simp add: keydown_mounted [OF d l])
    have "press prev_button p = p" using d z by (simp add: press_def click_prev_button)
    then show "click (prev_button i) = None
          \<and> press prev_button p = p
          \<and> keydown (lit ''ArrowLeft'') p = p\<lparr>deck := Some (k, go total_slides (- 1) i)\<rparr>
          \<and> keydown (lit ''ArrowLeft'') p = p"
      using z k same unfolding g by (simp add: click_prev_button)
  qed
  have c6: "i = total_slides - 1 \<longrightarrow> click (next_button i) = None
          \<and> press next_button p = p
          \<and> keydown (lit ''ArrowRight'') p = p\<lparr>deck := Some (k, go total_slides 1 i)\<rparr>
          \<and> keydown (lit ''ArrowRight'') p = p"
  proof
    assume z: "i = total_slides - 1"
    have g: "go total_slides 1 i = i" using z by (simp add: go_def total_slides)
    have k: "keydown (lit ''ArrowRight'') p = p\<lparr>deck := Some (k, go total_slides 1 i)\<rparr>"
      by (simp add: keydown_mounted [OF d l])
    have "press next_button p = p" using d z by (simp add: press_def click_next_button)
    then show "click (next_button i) = None
          \<and> press next_button p = p
          \<and> keydown (lit ''ArrowRight'') p = p\<lparr>deck := Some (k, go total_slides 1 i)\<rparr>
          \<and> keydown (lit ''ArrowRight'') p = p"
      using z k same unfolding g by (simp add: click_next_button)
  qed
  show "disabled (prev_button i) = (i = 0)
    \<and> disabled (next_button i) = (i = total_slides - 1)
    \<and> (\<forall>d. click (prev_button i) = Some d \<longrightarrow>
          d = - 1 \<and> 0 \<le> i + d \<and> go total_slides d i = i + d)
    \<and> (\<forall>d. click (next_button i) = Some d \<longrightarrow>
          d = 1 \<and> i + d \<le> total_slides - 1 \<and> go total_slides d i = i + d)
    \<and> (i = 0 \<longrightarrow> click (prev_button i) = None
          \<and> press prev_button (deck_run es page0) = deck_run es page0
          \<and> keydown (lit ''ArrowLeft'') (deck_run es page0)
              = (deck_run es page0)\<lparr>deck := Some (k, go total_slides (- 1) i)\<rparr>
          \<and> keydown (lit ''ArrowLeft'') (deck_run es page0) = deck_run es page0)
    \<and> (i = total_slides - 1 \<longrightarrow> click (next_button i) = None
          \<and> press next_button (deck_run es page0) = deck_run es page0
          \<and> keydown (lit ''ArrowRight'') (deck_run es page0)
              = (deck_run es page0)\<lparr>deck := Some (k, go total_slides 1 i)\<rparr>
          \<and> keydown (lit ''ArrowRight'') (deck_run es page0) = deck_run es page0)"
    using c1 c2 c3 c4 c5 c6 unfolding p_def by blast
qed

theorem buttons_disabled_exactly_at_boundaries_witness:
  "deck (deck_run [DeckMount] page0) = Some (0, 0)
   \<and> disabled (prev_button 0) \<and> \<not> disabled (next_button 0)
   \<and> click (prev_button 0) = None
   \<and> press prev_button (deck_run [DeckMount] page0) = deck_run [DeckMount] page0
   \<and> keydown (lit ''ArrowLeft'') (deck_run [DeckMount] page0) = deck_run [DeckMount] page0
   \<and> deck (deck_run [DeckMount, Jump 21] page0) = Some (0, 21)
   \<and> disabled (next_button 21) \<and> \<not> disabled (prev_button 21)
   \<and> click (prev_button 21) = Some (- 1) \<and> go total_slides (- 1) 21 = 20
   \<and> keydown (lit ''ArrowRight'') (deck_run [DeckMount, Jump 21] page0)
       = deck_run [DeckMount, Jump 21] page0"
proof -
  have d: "deck (deck_run [DeckMount] page0) = Some (0, 0)" by (simp add: mount_run)
  have e: "deck (deck_run [DeckMount, Jump 21] page0) = Some (0, 21)"
    by (simp add: deck_run_def page0_def mount_deck_def addEventListener_def jump_def
        setIdx_def slides_length)
  have t: "total_slides - 1 \<noteq> 0" "21 = total_slides - 1" by (simp_all add: total_slides)
  have c: "click (prev_button 21) = Some (- 1)" by (simp add: click_prev_button)
  note b = buttons_disabled_exactly_at_boundaries [rule_format, OF d]
  have p: "disabled (prev_button 0) = ((0::int) = 0)"
    and n: "disabled (next_button 0) = ((0::int) = total_slides - 1)"
    and z: "click (prev_button 0) = None
      \<and> press prev_button (deck_run [DeckMount] page0) = deck_run [DeckMount] page0
      \<and> keydown (lit ''ArrowLeft'') (deck_run [DeckMount] page0) = deck_run [DeckMount] page0"
    using b by blast+
  note b' = buttons_disabled_exactly_at_boundaries [rule_format, OF e]
  have p': "disabled (prev_button 21) = ((21::int) = 0)"
    and n': "disabled (next_button 21) = ((21::int) = total_slides - 1)"
    and g': "go total_slides (- 1) 21 = 21 + (- 1)"
    and z': "keydown (lit ''ArrowRight'') (deck_run [DeckMount, Jump 21] page0)
       = deck_run [DeckMount, Jump 21] page0"
    using b' c t(2) by blast+
  show ?thesis using d e t c p n z p' n' g' z' by simp
qed

section \<open>The timer's invariant\<close>

lemma inv_mount: "timer_inv mount"
  by (simp add: timer_inv_def mount_def effect_def)

lemma inv_start: "timer_inv w \<Longrightarrow> timer_inv (start w)"
  by (auto simp: timer_inv_def start_def rerender_def setRunning_def effect_def run_cleanup_def setTimeout_def clearTimeout_def split: if_splits)

lemma inv_pause: "timer_inv w \<Longrightarrow> timer_inv (pause w)"
  by (auto simp: timer_inv_def pause_def rerender_def setRunning_def effect_def run_cleanup_def setTimeout_def clearTimeout_def split: if_splits)

lemma inv_reset: "timer_inv w \<Longrightarrow> timer_inv (reset w)"
  by (auto simp: timer_inv_def reset_def rerender_def setRunning_def setSeconds_def effect_def run_cleanup_def setTimeout_def clearTimeout_def split: if_splits)

lemma inv_unmount: "timer_inv w \<Longrightarrow> timer_inv (unmount w)"
  by (auto simp: timer_inv_def unmount_def run_cleanup_def clearTimeout_def split: if_splits)

lemma inv_advance1: "timer_inv w \<Longrightarrow> timer_inv (advance1 w)"
  by (auto simp: timer_inv_def advance1_def Let_def fire_def rerender_def setSeconds_def effect_def run_cleanup_def setTimeout_def clearTimeout_def split: if_splits)

lemma inv_elapse: "timer_inv w \<Longrightarrow> timer_inv (elapse n w)"
  by (induction n arbitrary: w) (simp_all add: inv_advance1)

lemma inv_step: "timer_inv w \<Longrightarrow> timer_inv (timer_step w e)"
  by (cases e) (simp_all add: inv_start inv_pause inv_reset inv_elapse inv_unmount)

lemma inv_foldl: "timer_inv w \<Longrightarrow> timer_inv (foldl timer_step w es)"
  by (induction es arbitrary: w) (simp_all add: inv_step)

lemma inv_run: "timer_inv (run es mount)"
  by (simp add: run_def inv_foldl inv_mount)

lemma elapse_add: "elapse (a + b) w = elapse b (elapse a w)"
  by (induction a arbitrary: w) simp_all

lemma advance1_quiet: "pending w = [] \<Longrightarrow> advance1 w = w\<lparr>clock := Suc (clock w)\<rparr>"
  by (simp add: advance1_def)

lemma elapse_quiet: "pending w = [] \<Longrightarrow> elapse n w = w\<lparr>clock := clock w + n\<rparr>"
  by (induction n arbitrary: w) (simp_all add: advance1_quiet)

lemma advance1_early:
  "pending w = [(i, due)] \<Longrightarrow> Suc (clock w) < due \<Longrightarrow> advance1 w = w\<lparr>clock := Suc (clock w)\<rparr>"
  by (simp add: advance1_def)

lemma elapse_early:
  "pending w = [(i, due)] \<Longrightarrow> clock w + d < due \<Longrightarrow> elapse d w = w\<lparr>clock := clock w + d\<rparr>"
  by (induction d arbitrary: w) (simp_all add: advance1_early)

lemma tickingE:
  assumes "ticking w due"
  obtains i where "mounted w" "running w" "0 < seconds w" "clock w < due"
    "pending w = [(i, due)]" "cleanup w = Some i"
  using assms unfolding ticking_def by blast

lemma advance1_due:
  assumes "ticking w due" and "Suc (clock w) = due"
  shows "seconds (advance1 w) = seconds w - 1 \<and> clock (advance1 w) = due
     \<and> running (advance1 w) \<and> mounted (advance1 w)
     \<and> (if seconds w = 1 then pending (advance1 w) = [] \<and> cleanup (advance1 w) = None
         else ticking (advance1 w) (due + 1000))"
  using assms(1)
proof (rule tickingE)
  fix i assume "mounted w" "running w" "0 < seconds w" "clock w < due"
    "pending w = [(i, due)]" "cleanup w = Some i"
  then show ?thesis using assms(2)
    by (simp add: advance1_def fire_def rerender_def setSeconds_def effect_def
        run_cleanup_def setTimeout_def clearTimeout_def ticking_def)
qed

lemma elapse_due:
  assumes "ticking w due"
  shows "seconds (elapse (due - clock w) w) = seconds w - 1
     \<and> clock (elapse (due - clock w) w) = due
     \<and> running (elapse (due - clock w) w) \<and> mounted (elapse (due - clock w) w)
     \<and> (if seconds w = 1
          then pending (elapse (due - clock w) w) = [] \<and> cleanup (elapse (due - clock w) w) = None
          else ticking (elapse (due - clock w) w) (due + 1000))"
proof -
  obtain i where w: "clock w < due" "pending w = [(i, due)]"
    using assms by (rule tickingE)
  obtain d where d: "due - clock w = Suc d" using w(1) by (cases "due - clock w") simp_all
  then have cd: "clock w + d < due" "Suc (clock w + d) = due" using w(1) by linarith+
  define w1 where "w1 = elapse d w"
  have w1: "w1 = w\<lparr>clock := clock w + d\<rparr>"
    unfolding w1_def using w(2) cd(1) by (rule elapse_early)
  have t1: "ticking w1 due" using assms cd by (simp add: w1 ticking_def)
  have c1: "Suc (clock w1) = due" using cd by (simp add: w1)
  have e: "elapse (due - clock w) w = advance1 w1"
    using elapse_add [of d 1 w] by (simp add: d w1_def)
  have s1: "seconds w1 = seconds w" by (simp add: w1)
  show ?thesis using advance1_due [OF t1 c1] unfolding e s1 .
qed

lemma elapse_ticks:
  "ticking w due \<Longrightarrow> int k < seconds w \<Longrightarrow>
   seconds (elapse (due - clock w + 1000 * k) w) = seconds w - 1 - int k
   \<and> clock (elapse (due - clock w + 1000 * k) w) = due + 1000 * k
   \<and> running (elapse (due - clock w + 1000 * k) w)
   \<and> mounted (elapse (due - clock w + 1000 * k) w)
   \<and> (if seconds w - 1 - int k = 0
        then pending (elapse (due - clock w + 1000 * k) w) = []
           \<and> cleanup (elapse (due - clock w + 1000 * k) w) = None
        else ticking (elapse (due - clock w + 1000 * k) w) (due + 1000 * Suc k))"
proof (induction k arbitrary: w due)
  case 0
  show ?case using elapse_due [OF "0.prems"(1)] by simp
next
  case (Suc k)
  define w1 where "w1 = elapse (due - clock w) w"
  have first: "seconds w1 = seconds w - 1" "clock w1 = due" "ticking w1 (due + 1000)"
    using elapse_due [OF Suc.prems(1)] Suc.prems(2) unfolding w1_def by (simp_all split: if_splits)
  have k: "int k < seconds w1" using Suc.prems(2) first(1) by simp
  have a: "due - clock w + 1000 * Suc k = (due - clock w) + (1000 + 1000 * k)" by simp
  have b: "due + 1000 - clock w1 + 1000 * k = 1000 + 1000 * k" using first(2) by simp
  have c: "elapse (due - clock w + 1000 * Suc k) w = elapse (1000 + 1000 * k) w1"
    unfolding a w1_def by (rule elapse_add)
  note ih = Suc.IH [OF first(3) k, unfolded b first(1)]
  have e1: "seconds w - 1 - int (Suc k) = seconds w - 1 - 1 - int k" by simp
  have e2: "due + 1000 * Suc k = due + 1000 + 1000 * k" by simp
  have e3: "due + 1000 * Suc (Suc k) = due + 1000 + 1000 * Suc k" by simp
  show ?case unfolding c e1 e2 e3 using ih .
qed

lemma elapse_between:
  assumes "ticking w due" and "int k < seconds w" and "d < 1000"
  shows "seconds (elapse (due - clock w + 1000 * k + d) w) = seconds w - 1 - int k
    \<and> running (elapse (due - clock w + 1000 * k + d) w)
    \<and> mounted (elapse (due - clock w + 1000 * k + d) w)
    \<and> (pending (elapse (due - clock w + 1000 * k + d) w) = [] \<longleftrightarrow> seconds w - 1 - int k = 0)"
proof -
  define w1 where "w1 = elapse (due - clock w + 1000 * k) w"
  have e: "elapse (due - clock w + 1000 * k + d) w = elapse d w1"
    by (simp add: w1_def elapse_add)
  have f: "seconds w1 = seconds w - 1 - int k" "clock w1 = due + 1000 * k"
    "running w1" "mounted w1"
    "if seconds w - 1 - int k = 0 then pending w1 = [] else ticking w1 (due + 1000 * Suc k)"
    using elapse_ticks [OF assms(1,2)] unfolding w1_def by (simp_all split: if_splits)
  show ?thesis
  proof (cases "seconds w - 1 - int k = 0")
    case True
    then have "pending w1 = []" using f(5) by simp
    then show ?thesis unfolding e using f(1,3,4) True by (simp add: elapse_quiet)
  next
    case False
    then have "ticking w1 (due + 1000 * Suc k)" using f(5) by simp
    then obtain i where p: "pending w1 = [(i, due + 1000 * Suc k)]" by (rule tickingE)
    have "clock w1 + d < due + 1000 * Suc k" using assms(3) f(2) by simp
    then show ?thesis unfolding e using f(1,3,4) False p by (simp add: elapse_early [OF p])
  qed
qed

lemma inv_ticking:
  assumes "timer_inv w" and "mounted w" and "running w" and "0 < seconds w"
  obtains i due where "pending w = [(i, due)]" "clock w < due" "due \<le> clock w + 1000"
    "ticking w due"
proof -
  from assms obtain i due where
    "pending w = [(i, due)]" "cleanup w = Some i" "clock w < due" "due \<le> clock w + 1000"
    unfolding timer_inv_def by (auto split: if_splits)
  then show thesis using assms that by (simp add: ticking_def)
qed

lemma inv_idle: "timer_inv w \<Longrightarrow> seconds w = 0 \<or> \<not> running w \<or> \<not> mounted w \<Longrightarrow> pending w = []"
  by (auto simp: timer_inv_def split: if_splits)

lemma start_mount: "start mount = \<lparr>seconds = 60, running = True, mounted = True, cleanup = Some 0,
    clock = 0, pending = [(0, 1000)], next_id = 1\<rparr>"
  by (simp add: mount_def start_def effect_def rerender_def setRunning_def run_cleanup_def setTimeout_def)

lemma ticking_start_mount: "ticking (start mount) 1000"
  by (simp add: start_mount ticking_def)

lemma run_start_elapse: "run [Start, Elapse n] mount = elapse n (start mount)"
  by (simp add: run_def)

lemma start_elapsed:
  "int k < 60 \<Longrightarrow> d < 1000 \<Longrightarrow>
   seconds (elapse (1000 + 1000 * k + d) (start mount)) = 59 - int k
   \<and> running (elapse (1000 + 1000 * k + d) (start mount))
   \<and> mounted (elapse (1000 + 1000 * k + d) (start mount))"
  using elapse_between [OF ticking_start_mount, of k d] by (simp add: start_mount)

lemma advance1_mounted: "timer_inv w \<Longrightarrow> mounted (advance1 w) = mounted w"
  by (auto simp: timer_inv_def advance1_def Let_def fire_def rerender_def setSeconds_def
      effect_def run_cleanup_def setTimeout_def clearTimeout_def split: if_splits)

lemma elapse_mounted_inv: "timer_inv w \<Longrightarrow> mounted (elapse n w) = mounted w"
  by (induction n arbitrary: w) (simp_all add: advance1_mounted inv_advance1)

lemma pause_fields:
  "mounted w \<Longrightarrow> running (pause w) = False \<and> seconds (pause w) = seconds w
     \<and> mounted (pause w) \<and> clock (pause w) = clock w"
  by (simp add: pause_def rerender_def setRunning_def effect_def
      run_cleanup_def clearTimeout_def split: option.splits)

text \<open>
  Claim C2. In every state a run of events can reach in which the timer is mounted,
  running and above zero, exactly one tick is pending and it is due within the next
  second; \<open>seconds\<close> does not move before it is due, and from then on it has dropped by
  exactly one for each full second, staying running, with a next tick pending exactly
  while \<open>seconds\<close> is not yet zero; and if the timer is paused at any such moment no tick
  is pending afterwards. A tick is only ever pending in a running state: after every run
  of events a pending tick means the timer is running, mounted and above zero; nothing
  is pending on a freshly mounted timer, which is not running. In particular, three
  seconds after \<open>Start\<close> on a fresh timer \<open>seconds\<close> is 57 and the timer is running.
\<close>

theorem tick_rule:
  assumes "w = run es mount" and "mounted w" and "running w" and "0 < seconds w"
  shows "(\<exists>i due. pending w = [(i, due)] \<and> clock w < due \<and> due \<le> clock w + 1000
      \<and> (\<forall>d. d < due - clock w \<longrightarrow> seconds (elapse d w) = seconds w)
      \<and> (\<forall>k d. int k < seconds w \<and> d < 1000 \<longrightarrow>
            seconds (elapse (due - clock w + 1000 * k + d) w) = seconds w - 1 - int k
          \<and> running (elapse (due - clock w + 1000 * k + d) w)
          \<and> (pending (elapse (due - clock w + 1000 * k + d) w) \<noteq> []
               \<longleftrightarrow> seconds (elapse (due - clock w + 1000 * k + d) w) \<noteq> 0)))
    \<and> seconds (run [Start, Elapse 3000] mount) = 57
    \<and> running (run [Start, Elapse 3000] mount)
    \<and> (\<forall>es'. pending (run es' mount) \<noteq> [] \<longrightarrow>
          running (run es' mount) \<and> mounted (run es' mount) \<and> seconds (run es' mount) \<noteq> 0)
    \<and> (\<forall>n. \<not> running (pause (elapse n w)) \<and> pending (pause (elapse n w)) = []
          \<and> seconds (pause (elapse n w)) = seconds (elapse n w))
    \<and> \<not> running mount \<and> pending mount = []"
proof -
  have iw: "timer_inv w" unfolding assms(1) by (rule inv_run)
  have only_running: "\<forall>es'. pending (run es' mount) \<noteq> [] \<longrightarrow>
          running (run es' mount) \<and> mounted (run es' mount) \<and> seconds (run es' mount) \<noteq> 0"
    using inv_idle [OF inv_run] by blast
  have paused: "\<forall>n. \<not> running (pause (elapse n w)) \<and> pending (pause (elapse n w)) = []
          \<and> seconds (pause (elapse n w)) = seconds (elapse n w)"
  proof
    fix n
    have ie: "timer_inv (elapse n w)" using iw by (rule inv_elapse)
    have me: "mounted (elapse n w)" using assms(2) elapse_mounted_inv [OF iw] by simp
    have f: "\<not> running (pause (elapse n w))"
      "seconds (pause (elapse n w)) = seconds (elapse n w)"
      using pause_fields [OF me] by simp_all
    have "pending (pause (elapse n w)) = []"
      using inv_pause [OF ie] f(1) by (simp add: inv_idle)
    then show "\<not> running (pause (elapse n w)) \<and> pending (pause (elapse n w)) = []
          \<and> seconds (pause (elapse n w)) = seconds (elapse n w)"
      using f by simp
  qed
  have fresh: "\<not> running mount \<and> pending mount = []"
    by (simp add: mount_def effect_def)
  obtain i due where p: "pending w = [(i, due)]" "clock w < due" "due \<le> clock w + 1000"
    "ticking w due"
    using iw assms(2-4) by (rule inv_ticking)
  have early: "\<forall>d. d < due - clock w \<longrightarrow> seconds (elapse d w) = seconds w"
  proof (intro allI impI)
    fix d :: nat assume "d < due - clock w"
    then have "clock w + d < due" by simp
    then show "seconds (elapse d w) = seconds w" by (simp add: elapse_early [OF p(1)])
  qed
  have ticks: "\<forall>k d. int k < seconds w \<and> d < 1000 \<longrightarrow>
            seconds (elapse (due - clock w + 1000 * k + d) w) = seconds w - 1 - int k
          \<and> running (elapse (due - clock w + 1000 * k + d) w)
          \<and> (pending (elapse (due - clock w + 1000 * k + d) w) \<noteq> []
               \<longleftrightarrow> seconds (elapse (due - clock w + 1000 * k + d) w) \<noteq> 0)"
  proof (intro allI impI)
    fix k :: nat and d :: nat assume "int k < seconds w \<and> d < 1000"
    then have "int k < seconds w" "d < 1000" by simp_all
    from elapse_between [OF p(4) this]
    show "seconds (elapse (due - clock w + 1000 * k + d) w) = seconds w - 1 - int k
          \<and> running (elapse (due - clock w + 1000 * k + d) w)
          \<and> (pending (elapse (due - clock w + 1000 * k + d) w) \<noteq> []
               \<longleftrightarrow> seconds (elapse (due - clock w + 1000 * k + d) w) \<noteq> 0)"
      by simp
  qed
  have ex: "seconds (run [Start, Elapse 3000] mount) = 57 \<and> running (run [Start, Elapse 3000] mount)"
    using start_elapsed [of 2 0] by (simp add: run_start_elapse)
  have main: "\<exists>i due. pending w = [(i, due)] \<and> clock w < due \<and> due \<le> clock w + 1000
      \<and> (\<forall>d. d < due - clock w \<longrightarrow> seconds (elapse d w) = seconds w)
      \<and> (\<forall>k d. int k < seconds w \<and> d < 1000 \<longrightarrow>
            seconds (elapse (due - clock w + 1000 * k + d) w) = seconds w - 1 - int k
          \<and> running (elapse (due - clock w + 1000 * k + d) w)
          \<and> (pending (elapse (due - clock w + 1000 * k + d) w) \<noteq> []
               \<longleftrightarrow> seconds (elapse (due - clock w + 1000 * k + d) w) \<noteq> 0))"
    using p(1-3) early ticks by blast
  show ?thesis using main ex only_running paused fresh by blast
qed

theorem tick_rule_witness:
  "start mount = run [Start] mount \<and> mounted (start mount) \<and> running (start mount)
   \<and> 0 < seconds (start mount)
   \<and> seconds (elapse 999 (start mount)) = 60
   \<and> seconds (elapse 1000 (start mount)) = 59
   \<and> seconds (elapse 3000 (start mount)) = 57
   \<and> running (elapse 3000 (start mount))
   \<and> pending (elapse 3000 (start mount)) \<noteq> []
   \<and> pending (run [Start] mount) \<noteq> [] \<and> running (run [Start] mount)
   \<and> \<not> running (run [Start, Pause] mount) \<and> pending (run [Start, Pause] mount) = []
   \<and> pending (pause (elapse 2500 (start mount))) = []"
proof -
  have h: "start mount = run [Start] mount" "mounted (start mount)" "running (start mount)"
    "0 < seconds (start mount)"
    by (simp_all add: run_def start_mount)
  note T = tick_rule [OF h]
  from T obtain i due where
    p: "pending (start mount) = [(i, due)]"
    and early: "\<forall>d. d < due - clock (start mount) \<longrightarrow> seconds (elapse d (start mount)) = seconds (start mount)"
    and ticks: "\<forall>k d. int k < seconds (start mount) \<and> d < 1000 \<longrightarrow>
            seconds (elapse (due - clock (start mount) + 1000 * k + d) (start mount)) = seconds (start mount) - 1 - int k
          \<and> running (elapse (due - clock (start mount) + 1000 * k + d) (start mount))
          \<and> (pending (elapse (due - clock (start mount) + 1000 * k + d) (start mount)) \<noteq> []
               \<longleftrightarrow> seconds (elapse (due - clock (start mount) + 1000 * k + d) (start mount)) \<noteq> 0)"
    by blast
  from T have only_running: "\<forall>es'. pending (run es' mount) \<noteq> [] \<longrightarrow> running (run es' mount)"
    and paused: "\<forall>n. \<not> running (pause (elapse n (start mount)))
        \<and> pending (pause (elapse n (start mount))) = []"
    by blast+
  have due: "due = 1000" using p by (simp add: start_mount)
  have c: "clock (start mount) = 0" "seconds (start mount) = 60" by (simp_all add: start_mount)
  have a: "seconds (elapse 999 (start mount)) = 60" using early [rule_format, of 999] by (simp add: due c)
  have b: "seconds (elapse 1000 (start mount)) = 59" using ticks [rule_format, of 0 0] by (simp add: due c)
  have d: "seconds (elapse 3000 (start mount)) = 57 \<and> running (elapse 3000 (start mount))
     \<and> pending (elapse 3000 (start mount)) \<noteq> []"
    using ticks [rule_format, of 2 0] by (simp add: due c)
  have e: "pending (run [Start] mount) \<noteq> []" by (simp add: run_def start_mount)
  have f: "running (run [Start] mount)" using only_running e by blast
  have r: "run [Start, Pause] mount = pause (elapse 0 (start mount))" by (simp add: run_def)
  have g: "\<not> running (run [Start, Pause] mount) \<and> pending (run [Start, Pause] mount) = []"
    unfolding r using paused by blast
  have k: "pending (pause (elapse 2500 (start mount))) = []" using paused by blast
  show ?thesis using h a b d e f g k by simp
qed

lemma countdown_done:
  "seconds (run [Start, Elapse 60000] mount) = 0 \<and> running (run [Start, Elapse 60000] mount)
   \<and> mounted (run [Start, Elapse 60000] mount)"
  using start_elapsed [of 59 0] by (simp add: run_start_elapse)

text \<open>
  Claim C3. After every run of events \<open>seconds\<close> lies in \<open>[0, 60]\<close>; and once it is 0 no
  tick is pending and no amount of elapsed time changes it: it stays 0, is not reset, and
  nothing is scheduled again.
\<close>

theorem seconds_bounded_and_halts_at_zero:
  "0 \<le> seconds (run es mount) \<and> seconds (run es mount) \<le> 60
   \<and> (seconds (run es mount) = 0 \<longrightarrow>
        pending (run es mount) = []
        \<and> (\<forall>n. seconds (elapse n (run es mount)) = 0
               \<and> pending (elapse n (run es mount)) = []
               \<and> running (elapse n (run es mount)) = running (run es mount)))"
proof -
  define w where "w = run es mount"
  have iw: "timer_inv w" unfolding w_def by (rule inv_run)
  have b: "0 \<le> seconds w \<and> seconds w \<le> 60" using iw by (simp add: timer_inv_def)
  have z: "seconds w = 0 \<longrightarrow> pending w = []
        \<and> (\<forall>n. seconds (elapse n w) = 0 \<and> pending (elapse n w) = []
               \<and> running (elapse n w) = running w)"
  proof
    assume s: "seconds w = 0"
    have p: "pending w = []" using iw s by (simp add: inv_idle)
    show "pending w = [] \<and> (\<forall>n. seconds (elapse n w) = 0 \<and> pending (elapse n w) = []
               \<and> running (elapse n w) = running w)"
      using p s by (simp add: elapse_quiet)
  qed
  show ?thesis using b z unfolding w_def by blast
qed

theorem seconds_bounded_and_halts_at_zero_witness:
  "seconds (run [Start, Elapse 60000] mount) = 0
   \<and> running (run [Start, Elapse 60000] mount)
   \<and> pending (run [Start, Elapse 60000] mount) = []
   \<and> seconds (elapse 5000 (run [Start, Elapse 60000] mount)) = 0
   \<and> pending (elapse 5000 (run [Start, Elapse 60000] mount)) = []"
  using seconds_bounded_and_halts_at_zero [of "[Start, Elapse 60000]"] countdown_done
  by blast

text \<open>
  Claim C4. From every state of a mounted timer, \<open>reset\<close> gives \<open>seconds = 60\<close> and
  \<open>running = False\<close>.
\<close>

theorem reset_restores_initial:
  "mounted w \<Longrightarrow> seconds (reset w) = 60 \<and> running (reset w) = False"
  by (simp add: reset_def rerender_def setRunning_def setSeconds_def effect_def
      run_cleanup_def setTimeout_def clearTimeout_def split: option.splits)

theorem reset_restores_initial_witness:
  "mounted (start mount) \<and> seconds (reset (start mount)) = 60
   \<and> running (reset (start mount)) = False"
  using reset_restores_initial [of "start mount"] by (simp add: start_mount)

lemma start_fields:
  "mounted w \<Longrightarrow> running (start w) = True \<and> seconds (start w) = seconds w
     \<and> mounted (start w) \<and> clock (start w) = clock w"
  by (simp add: start_def rerender_def setRunning_def effect_def
      run_cleanup_def setTimeout_def clearTimeout_def split: option.splits)

lemma start_idle_ticking:
  assumes "timer_inv w" and "mounted w" and "\<not> running w" and "0 < seconds w"
  shows "ticking (start w) (clock w + 1000)"
proof -
  have "pending w = []" "cleanup w = None" using assms by (simp_all add: timer_inv_def)
  then show ?thesis using assms(2-4)
    by (simp add: start_def rerender_def setRunning_def effect_def run_cleanup_def
        setTimeout_def ticking_def)
qed

lemma resume_after_pause:
  assumes "timer_inv w" and "mounted w" and "int k < seconds w" and "d < 1000"
  shows "seconds (elapse n (pause w)) = seconds w
     \<and> seconds (elapse (1000 + 1000 * k + d) (start (elapse n (pause w)))) = seconds w - 1 - int k"
proof -
  define p where "p = elapse n (pause w)"
  have ip: "timer_inv (pause w)" using assms(1) by (rule inv_pause)
  have pf: "\<not> running (pause w)" "seconds (pause w) = seconds w" "mounted (pause w)"
    using pause_fields [OF assms(2)] by simp_all
  have "pending (pause w) = []" using ip pf(1) by (simp add: inv_idle)
  then have pe: "p = (pause w)\<lparr>clock := clock (pause w) + n\<rparr>"
    unfolding p_def by (rule elapse_quiet)
  have f: "seconds p = seconds w" "mounted p" "\<not> running p" using pf by (simp_all add: pe)
  have "timer_inv p" unfolding p_def using ip by (rule inv_elapse)
  then have t: "ticking (start p) (clock p + 1000)"
    using f assms(3) by (intro start_idle_ticking) simp_all
  have sf: "seconds (start p) = seconds w" "clock (start p) = clock p"
    using start_fields [OF f(2)] f(1) by simp_all
  have "seconds (elapse (clock p + 1000 - clock (start p) + 1000 * k + d) (start p))
      = seconds (start p) - 1 - int k"
    using elapse_between [OF t _ assms(4), of k] assms(3) sf(1) by simp
  then show ?thesis using f(1) sf unfolding p_def [symmetric] by simp
qed

lemma two_ticks:
  "seconds (run [Start, Elapse 2000] mount) = 58 \<and> mounted (run [Start, Elapse 2000] mount)"
  using start_elapsed [of 1 0] by (simp add: run_start_elapse)

text \<open>
  Claim C5. From every state of a mounted timer, \<open>pause\<close> sets \<open>running\<close> to false and
  leaves \<open>seconds\<close> as it is, and \<open>start\<close> after it sets \<open>running\<close> to true with the
  same \<open>seconds\<close>. In a state reached by a run of events, \<open>seconds\<close> keeps its value for
  as long as the timer stays paused, and after \<open>start\<close> the count goes on from that value,
  one down each second. Pausing after two ticks and starting again continues from 58.
\<close>

theorem pause_keeps_remaining_and_start_resumes:
  assumes "mounted w"
  shows "running (pause w) = False \<and> seconds (pause w) = seconds w
     \<and> running (start (pause w)) = True \<and> seconds (start (pause w)) = seconds w
     \<and> (\<forall>es n k d. w = run es mount \<and> int k < seconds w \<and> d < 1000 \<longrightarrow>
           seconds (elapse n (pause w)) = seconds w
         \<and> seconds (elapse (1000 + 1000 * k + d) (start (elapse n (pause w))))
             = seconds w - 1 - int k)
     \<and> seconds (run [Start, Elapse 2000, Pause, Start] mount) = 58
     \<and> seconds (run [Start, Elapse 2000, Pause, Elapse 5000, Start, Elapse 1000] mount) = 57"
proof -
  have a: "running (pause w) = False \<and> seconds (pause w) = seconds w"
    using pause_fields [OF assms] by simp
  have "mounted (pause w)" using pause_fields [OF assms] by simp
  then have b: "running (start (pause w)) = True \<and> seconds (start (pause w)) = seconds w"
    using start_fields [of "pause w"] a by simp
  have c: "\<forall>es n k d. w = run es mount \<and> int k < seconds w \<and> d < 1000 \<longrightarrow>
           seconds (elapse n (pause w)) = seconds w
         \<and> seconds (elapse (1000 + 1000 * k + d) (start (elapse n (pause w))))
             = seconds w - 1 - int k"
  proof (intro allI impI)
    fix es and n :: nat and k :: nat and d :: nat
    assume h: "w = run es mount \<and> int k < seconds w \<and> d < 1000"
    then have eq: "w = run es mount" and k: "int k < seconds w" and d: "d < 1000"
      by blast+
    have i: "timer_inv w" unfolding eq by (rule inv_run)
    show "seconds (elapse n (pause w)) = seconds w
         \<and> seconds (elapse (1000 + 1000 * k + d) (start (elapse n (pause w))))
             = seconds w - 1 - int k"
      using i assms k d by (rule resume_after_pause)
  qed
  define w2 where "w2 = run [Start, Elapse 2000] mount"
  have w2: "timer_inv w2" "mounted w2" "seconds w2 = 58"
    unfolding w2_def using two_ticks by (simp_all add: inv_run)
  have r1: "run [Start, Elapse 2000, Pause, Start] mount = start (pause w2)"
    by (simp add: run_def w2_def)
  have r2: "run [Start, Elapse 2000, Pause, Elapse 5000, Start, Elapse 1000] mount
      = elapse 1000 (start (elapse 5000 (pause w2)))"
    by (simp add: run_def w2_def)
  have "mounted (pause w2)" "seconds (pause w2) = 58" using pause_fields [OF w2(2)] w2(3) by simp_all
  then have e1: "seconds (start (pause w2)) = 58" using start_fields [of "pause w2"] by simp
  have e2: "seconds (elapse 1000 (start (elapse 5000 (pause w2)))) = 57"
    using resume_after_pause [OF w2(1,2), of 0 0 5000] w2(3) by simp
  show ?thesis using a b c e1 e2 unfolding r1 r2 by blast
qed

theorem pause_keeps_remaining_and_start_resumes_witness:
  "mounted (run [Start, Elapse 2000] mount)
   \<and> running (pause (run [Start, Elapse 2000] mount)) = False
   \<and> seconds (pause (run [Start, Elapse 2000] mount)) = 58
   \<and> seconds (start (pause (run [Start, Elapse 2000] mount))) = 58
   \<and> seconds (elapse 1000 (start (elapse 5000 (pause (run [Start, Elapse 2000] mount))))) = 57"
proof -
  define w where "w = run [Start, Elapse 2000] mount"
  have m: "mounted w" and s: "seconds w = 58" unfolding w_def using two_ticks by simp_all
  note t = pause_keeps_remaining_and_start_resumes [OF m]
  have a: "running (pause w) = False" "seconds (pause w) = 58" "seconds (start (pause w)) = 58"
    using t s by simp_all
  have "w = run [Start, Elapse 2000] mount \<and> int 0 < seconds w \<and> (0::nat) < 1000"
    using s by (simp add: w_def)
  with t have "seconds (elapse (1000 + 1000 * 0 + 0) (start (elapse 5000 (pause w)))) = seconds w - 1 - int 0"
    by blast
  then have b: "seconds (elapse 1000 (start (elapse 5000 (pause w)))) = 57" using s by simp
  show ?thesis using m a b unfolding w_def by simp
qed


lemma step_unmounted:
  "\<not> mounted u \<Longrightarrow> pending u = [] \<Longrightarrow>
   \<not> mounted (timer_step u e) \<and> pending (timer_step u e) = [] \<and> seconds (timer_step u e) = seconds u"
  by (cases e)
    (simp_all add: start_def pause_def reset_def unmount_def rerender_def setRunning_def
      setSeconds_def run_cleanup_def clearTimeout_def elapse_quiet split: option.splits)

lemma foldl_unmounted:
  "\<not> mounted u \<Longrightarrow> pending u = [] \<Longrightarrow>
   \<not> mounted (foldl timer_step u es) \<and> pending (foldl timer_step u es) = []
     \<and> seconds (foldl timer_step u es) = seconds u"
proof (induction es arbitrary: u)
  case Nil
  then show ?case by simp
next
  case (Cons e es)
  have s: "\<not> mounted (timer_step u e)" "pending (timer_step u e) = []" "seconds (timer_step u e) = seconds u"
    using step_unmounted [OF Cons.prems] by simp_all
  show ?case using Cons.IH [OF s(1,2)] s(3) by simp
qed

lemma unmount_fields:
  "\<not> mounted (unmount w) \<and> seconds (unmount w) = seconds w"
  by (simp add: unmount_def run_cleanup_def clearTimeout_def split: option.splits)

text \<open>
  Claim C7. After every run of events: unmounting leaves no timeout pending, and whatever
  happens afterwards nothing becomes pending and \<open>seconds\<close> is never touched again, so
  no tick fires after the unmount; pausing and resetting leave no timeout pending; and
  with \<open>seconds\<close> at zero none is pending.
\<close>

theorem no_tick_pending_after_exit:
  "pending (unmount (run es mount)) = []
   \<and> (\<forall>es'. pending (run es' (unmount (run es mount))) = []
            \<and> seconds (run es' (unmount (run es mount))) = seconds (run es mount))
   \<and> pending (pause (run es mount)) = []
   \<and> pending (reset (run es mount)) = []
   \<and> (seconds (run es mount) = 0 \<longrightarrow> pending (run es mount) = [])"
proof -
  define w where "w = run es mount"
  have iw: "timer_inv w" unfolding w_def by (rule inv_run)
  have u: "pending (unmount w) = []"
    using inv_unmount [OF iw] unmount_fields [of w] by (simp add: inv_idle)
  have after: "\<forall>es'. pending (run es' (unmount w)) = []
            \<and> seconds (run es' (unmount w)) = seconds w"
    using foldl_unmounted [OF _ u] unmount_fields [of w] by (simp add: run_def)
  have p: "pending (pause w) = []"
  proof (cases "mounted w")
    case True
    then show ?thesis using inv_pause [OF iw] pause_fields [of w] by (simp add: inv_idle)
  next
    case False
    then have "\<not> mounted (pause w)" by (simp add: pause_def rerender_def setRunning_def)
    then show ?thesis using inv_pause [OF iw] by (simp add: inv_idle)
  qed
  have r: "pending (reset w) = []"
  proof (cases "mounted w")
    case True
    then have "\<not> running (reset w)"
      by (simp add: reset_def rerender_def setRunning_def setSeconds_def effect_def
      run_cleanup_def setTimeout_def clearTimeout_def split: option.splits)
    then show ?thesis using inv_reset [OF iw] by (simp add: inv_idle)
  next
    case False
    then have "\<not> mounted (reset w)"
      by (simp add: reset_def rerender_def setRunning_def setSeconds_def)
    then show ?thesis using inv_reset [OF iw] by (simp add: inv_idle)
  qed
  have z: "seconds w = 0 \<longrightarrow> pending w = []" using iw by (simp add: inv_idle)
  show ?thesis using u after p r z unfolding w_def by blast
qed

theorem no_tick_pending_after_exit_witness:
  "seconds (run [Start, Elapse 60000] mount) = 0
   \<and> pending (run [Start, Elapse 60000] mount) = []
   \<and> pending (run [Start] mount) \<noteq> []
   \<and> pending (unmount (run [Start] mount)) = []
   \<and> pending (run [Elapse 5000] (unmount (run [Start] mount))) = []
   \<and> seconds (run [Elapse 5000] (unmount (run [Start] mount))) = 60"
proof -
  have a: "pending (run [Start] mount) \<noteq> []" "seconds (run [Start] mount) = 60"
    by (simp_all add: run_def start_mount)
  show ?thesis
    using no_tick_pending_after_exit [of "[Start, Elapse 60000]"]
      no_tick_pending_after_exit [of "[Start]"] countdown_done a
    by simp
qed

end
